theory Spec2Isabelle
  imports Main "HOL-Library.Multiset"
begin

section \<open>Handles and the packed allocator\<close>

text \<open>
  The transform manager (\<^verbatim>\<open>src/src/core/transform-manager.cpp\<close>) is built on
  \<^verbatim>\<open>packed_freelist_t\<close> and \<^verbatim>\<open>handle_t\<close>, whose header is not among the
  sources. The manager reads the fields \<^verbatim>\<open>index_\<close> of a handle and calls
  \<^verbatim>\<open>add\<close>, \<^verbatim>\<open>remove\<close>, \<^verbatim>\<open>get\<close>, \<^verbatim>\<open>swap\<close>, \<^verbatim>\<open>getIndexFromId\<close>,
  \<^verbatim>\<open>getIdFromIndex\<close>, \<^verbatim>\<open>getElementCount\<close> and \<^verbatim>\<open>getData\<close>.
\<close>

text \<open>Modelled from the spec: \<^verbatim>\<open>handle_t\<close> of the missing header, the "pair
  (index: integer, generation: integer)", where "index addresses a logical slot" and
  "generation disambiguates slot reuse". The fields are \<^verbatim>\<open>index_\<close> and
  \<^verbatim>\<open>generation_\<close> in the source.\<close>

record handle_t =
  index :: nat
  generation :: nat

text \<open>Modelled from the spec: the constant \<^verbatim>\<open>NULL_HANDLE\<close> of the missing header,
  "a distinguished NULL handle (e.g. index = sentinel)"; the sentinel is taken to be the
  largest 32-bit value.\<close>

definition NULL_HANDLE :: handle_t where
  "NULL_HANDLE = \<lparr>index = 4294967295, generation = 4294967295\<rparr>"

text \<open>Modelled from the spec: one entry of the slot table of the missing allocator,
  "logical index \<rightarrow> (dense position, generation, occupied flag)".\<close>

record slot_t =
  position :: nat
  slot_generation :: nat
  occupied :: bool

text \<open>Modelled from the spec: the state of the missing allocator, \<^verbatim>\<open>dense[]\<close>,
  \<^verbatim>\<open>sparse[]\<close> (the slot table) and \<^verbatim>\<open>freeList\<close>. Every dense entry is stored
  with the logical index that owns it, which is what \<^verbatim>\<open>getIdFromIndex\<close> reads.\<close>

record 'a packed_freelist_t =
  dense :: "(nat \<times> 'a) list"
  slots :: "slot_t list"
  freeList :: "nat list"

text \<open>Modelled from the spec: the allocator as constructed, holding nothing.\<close>

definition empty_freelist :: "'a packed_freelist_t" where
  "empty_freelist = \<lparr>dense = [], slots = [], freeList = []\<rparr>"

text \<open>Modelled from the spec: handle validity of the missing allocator, "a Handle is valid
  iff its generation equals the sparse slot's stored generation"; an out-of-range index or
  a slot that is not occupied is "not found".\<close>

definition is_valid :: "'a packed_freelist_t \<Rightarrow> handle_t \<Rightarrow> bool" where
  "is_valid a h \<longleftrightarrow>
     index h < length (slots a) \<and> occupied (slots a ! index h) \<and>
     slot_generation (slots a ! index h) = generation h"

text \<open>Modelled from the spec: \<^verbatim>\<open>getIndexFromId(handle) -> (denseIndex, found)\<close> of the
  missing allocator.\<close>

definition getIndexFromId :: "'a packed_freelist_t \<Rightarrow> handle_t \<Rightarrow> nat option" where
  "getIndexFromId a h = (if is_valid a h then Some (position (slots a ! index h)) else None)"

text \<open>Modelled from the spec: \<^verbatim>\<open>getIdFromIndex(denseIndex) -> Handle\<close> of the missing
  allocator; a position past the end gives the null handle.\<close>

definition getIdFromIndex :: "'a packed_freelist_t \<Rightarrow> nat \<Rightarrow> handle_t" where
  "getIdFromIndex a i =
     (if i < length (dense a)
      then \<lparr>index = fst (dense a ! i),
            generation = slot_generation (slots a ! fst (dense a ! i))\<rparr>
      else NULL_HANDLE)"

text \<open>Modelled from the spec: \<^verbatim>\<open>getElementCount\<close> and \<^verbatim>\<open>getData\<close> of the missing
  allocator.\<close>

definition getElementCount :: "'a packed_freelist_t \<Rightarrow> nat" where
  "getElementCount a = length (dense a)"

definition getData :: "'a packed_freelist_t \<Rightarrow> 'a list" where
  "getData a = map snd (dense a)"

text \<open>Modelled from the spec: \<^verbatim>\<open>get(handle) -> pointer-or-null\<close> of the missing
  allocator, "validity check (generation match) then direct dense-array access".\<close>

definition get :: "'a packed_freelist_t \<Rightarrow> handle_t \<Rightarrow> 'a option" where
  "get a h = (case getIndexFromId a h of None \<Rightarrow> None | Some p \<Rightarrow> Some (snd (dense a ! p)))"

text \<open>Modelled from the spec: \<^verbatim>\<open>add(element) -> Handle\<close> of the missing allocator,
  "appends to dense[], allocates a logical index from freeList (or extends the slot table),
  records generation, returns Handle".\<close>

definition add :: "'a \<Rightarrow> 'a packed_freelist_t \<Rightarrow> handle_t \<times> 'a packed_freelist_t" where
  "add e a =
     (let p = length (dense a) in
      case freeList a of
        [] \<Rightarrow>
          (let k = length (slots a) in
           (\<lparr>index = k, generation = 0\<rparr>,
            \<lparr>dense = dense a @ [(k, e)],
             slots = slots a @ [\<lparr>position = p, slot_generation = 0, occupied = True\<rparr>],
             freeList = []\<rparr>))
      | k # fs \<Rightarrow>
          (let g = slot_generation (slots a ! k) in
           (\<lparr>index = k, generation = g\<rparr>,
            \<lparr>dense = dense a @ [(k, e)],
             slots = (slots a)[k := \<lparr>position = p, slot_generation = g, occupied = True\<rparr>],
             freeList = fs\<rparr>)))"

text \<open>The exchange of two places of a vector.\<close>

definition swap_at :: "nat \<Rightarrow> nat \<Rightarrow> 'a list \<Rightarrow> 'a list" where
  "swap_at i j xs = xs[i := xs ! j, j := xs ! i]"

text \<open>Modelled from the spec: \<^verbatim>\<open>remove(handle) -> success\<close> of the missing allocator.
  "On success: swaps the target's dense entry with the last dense entry (if not already
  last), shrinks dense[] by one, updates the slot table entry for whichever other logical
  element was moved into the vacated dense position, bumps the removed slot's generation,
  and returns it to freeList." A handle that is stale or out of range gives \<^verbatim>\<open>false\<close>
  and no change.\<close>

definition remove :: "handle_t \<Rightarrow> 'a packed_freelist_t \<Rightarrow> bool \<times> 'a packed_freelist_t" where
  "remove h a =
     (case getIndexFromId a h of
        None \<Rightarrow> (False, a)
      | Some p \<Rightarrow>
          (let lst = length (dense a) - 1;
               moved = fst (dense a ! lst);
               d = butlast (swap_at p lst (dense a));
               s1 = (if p \<noteq> lst
                     then (slots a)[moved := (slots a ! moved)\<lparr>position := p\<rparr>]
                     else slots a);
               s2 = s1[index h := (s1 ! index h)\<lparr>slot_generation := slot_generation (s1 ! index h) + 1,
                                                  occupied := False\<rparr>]
           in (True, \<lparr>dense = d, slots = s2, freeList = index h # freeList a\<rparr>)))"

text \<open>Modelled from the spec: \<^verbatim>\<open>swap(handleA, handleB)\<close> of the missing allocator,
  "exchanges the dense-array contents (and slot-table bookkeeping) of two valid elements
  without changing either Handle's validity".\<close>

definition swap :: "handle_t \<Rightarrow> handle_t \<Rightarrow> 'a packed_freelist_t \<Rightarrow> 'a packed_freelist_t" where
  "swap x y a =
     (case getIndexFromId a x of
        None \<Rightarrow> a
      | Some px \<Rightarrow>
          (case getIndexFromId a y of
             None \<Rightarrow> a
           | Some py \<Rightarrow>
               a\<lparr>dense := swap_at px py (dense a),
                 slots := (slots a)[index x := (slots a ! index x)\<lparr>position := py\<rparr>,
                                    index y := (slots a ! index y)\<lparr>position := px\<rparr>]\<rparr>))"

text \<open>Modelled from the spec: a write \<^verbatim>\<open>*t = v\<close> through the pointer that \<^verbatim>\<open>get\<close>
  of the missing allocator returns, into the dense array.\<close>

definition put :: "handle_t \<Rightarrow> 'a \<Rightarrow> 'a packed_freelist_t \<Rightarrow> 'a packed_freelist_t" where
  "put h v a =
     (case getIndexFromId a h of
        None \<Rightarrow> a
      | Some p \<Rightarrow> a\<lparr>dense := (dense a)[p := (fst (dense a ! p), v)]\<rparr>)"

section \<open>The transform manager\<close>

text \<open>The state of \<^verbatim>\<open>transform_manager_t\<close>, from the members its functions use:
  \<^verbatim>\<open>transform_\<close>, the allocator of the local matrices, the vectors \<^verbatim>\<open>parent_\<close> and
  \<^verbatim>\<open>world_\<close>, and \<^verbatim>\<open>hierarchy_changed_\<close>. Reading or writing a vector past its end
  is the error \<open>OutOfBounds\<close>. Positions and sizes are \<^verbatim>\<open>u32\<close> in the source and
  natural numbers here; the one subtraction that can wrap, in \<^verbatim>\<open>destroyTransform\<close>, is
  written out.\<close>

datatype error = OutOfBounds

record 'm transform_manager_t =
  transform :: "'m packed_freelist_t"
  parent :: "handle_t list"
  world :: "'m list"
  hierarchy_changed :: bool

text \<open>Modelled from the spec: the manager as constructed (the constructor is in the missing
  header), with no transform. Every \<^verbatim>\<open>createTransform\<close> sets the flag, so its first
  value does not matter below.\<close>

definition empty_manager :: "'m transform_manager_t" where
  "empty_manager =
     \<lparr>transform = empty_freelist, parent = [], world = [], hierarchy_changed = False\<rparr>"

text \<open>\<^verbatim>\<open>std::vector::resize(n)\<close>: new places hold a value-initialised element.\<close>

definition resize :: "nat \<Rightarrow> 'a \<Rightarrow> 'a list \<Rightarrow> 'a list" where
  "resize n d xs = take n xs @ replicate (n - length xs) d"

text \<open>The value-initialised \<^verbatim>\<open>handle_t\<close> that \<^verbatim>\<open>resize\<close> appends to
  \<^verbatim>\<open>parent_\<close>. Whatever its fields are, \<^verbatim>\<open>createTransform\<close> overwrites it in
  the same call or fails on the write.\<close>

definition value_init_handle :: handle_t where
  "value_init_handle = \<lparr>index = 0, generation = 0\<rparr>"

text \<open>\<^verbatim>\<open>createTransform\<close>, lines 30-45. The value-initialised matrix that
  \<^verbatim>\<open>resize\<close> appends to \<^verbatim>\<open>world_\<close> is \<^term>\<open>default\<close>. Writing
  \<^verbatim>\<open>parent_[id.index_]\<close> past the end of the vector is \<^term>\<open>OutOfBounds\<close>.\<close>

definition createTransform ::
  "'m::default \<Rightarrow> 'm transform_manager_t \<Rightarrow> error + (handle_t \<times> 'm transform_manager_t)" where
  "createTransform t m =
     (let (h, a) = add t (transform m);
          grow = (index h \<ge> length (parent m));
          newSize = length (parent m) + 1;
          ps = (if grow then resize newSize value_init_handle (parent m) else parent m);
          ws = (if grow then resize newSize default (world m) else world m)
      in if index h < length ps
         then Inr (h, \<lparr>transform = a, parent = ps[index h := NULL_HANDLE], world = ws,
                       hierarchy_changed = True\<rparr>)
         else Inl OutOfBounds)"

text \<open>\<^verbatim>\<open>destroyTransform\<close>, lines 47-69. \<^verbatim>\<open>lastTransform\<close> is a \<^verbatim>\<open>u32\<close>:
  with no element it wraps to \<open>2^32 - 1\<close>.\<close>

definition destroyTransform ::
  "handle_t \<Rightarrow> 'm transform_manager_t \<Rightarrow> error + (bool \<times> 'm transform_manager_t)" where
  "destroyTransform h m =
     (let lastTransform = (getElementCount (transform m) + 4294967296 - 1) mod 4294967296;
          (ok, a) = remove h (transform m)
      in case getIndexFromId (transform m) h of
           None \<Rightarrow> Inr (ok, m\<lparr>transform := a, hierarchy_changed := True\<rparr>)
         | Some idx \<Rightarrow>
             if idx < lastTransform
             then (if idx < length (parent m) \<and> lastTransform < length (parent m) \<and>
                      idx < length (world m) \<and> lastTransform < length (world m)
                   then Inr (ok, \<lparr>transform = a,
                                  parent = swap_at idx lastTransform (parent m),
                                  world = swap_at idx lastTransform (world m),
                                  hierarchy_changed = True\<rparr>)
                   else Inl OutOfBounds)
             else Inr (ok, m\<lparr>transform := a, hierarchy_changed := True\<rparr>))"

text \<open>\<^verbatim>\<open>getTransform\<close> and \<^verbatim>\<open>setTransform\<close>, lines 71-86.\<close>

definition getTransform :: "handle_t \<Rightarrow> 'm transform_manager_t \<Rightarrow> 'm option" where
  "getTransform h m = get (transform m) h"

definition setTransform ::
  "handle_t \<Rightarrow> 'm \<Rightarrow> 'm transform_manager_t \<Rightarrow> bool \<times> 'm transform_manager_t" where
  "setTransform h t m =
     (case get (transform m) h of
        Some _ \<Rightarrow> (True, m\<lparr>transform := put h t (transform m)\<rparr>)
      | None \<Rightarrow> (False, m))"

text \<open>\<^verbatim>\<open>setParent\<close>, lines 88-99.\<close>

definition setParent ::
  "handle_t \<Rightarrow> handle_t \<Rightarrow> 'm transform_manager_t \<Rightarrow> error + (bool \<times> 'm transform_manager_t)" where
  "setParent h parentId m =
     (case getIndexFromId (transform m) h of
        Some idx \<Rightarrow>
          if idx < length (parent m)
          then Inr (True, m\<lparr>parent := (parent m)[idx := parentId], hierarchy_changed := True\<rparr>)
          else Inl OutOfBounds
      | None \<Rightarrow> Inr (False, m\<lparr>hierarchy_changed := True\<rparr>))"

text \<open>\<^verbatim>\<open>getParent\<close>, lines 101-110.\<close>

definition getParent :: "handle_t \<Rightarrow> 'm transform_manager_t \<Rightarrow> error + handle_t" where
  "getParent h m =
     (case getIndexFromId (transform m) h of
        Some idx \<Rightarrow> if idx < length (parent m) then Inr (parent m ! idx) else Inl OutOfBounds
      | None \<Rightarrow> Inr NULL_HANDLE)"

text \<open>\<^verbatim>\<open>getWorldMatrix\<close>, lines 112-123; \<open>None\<close> is \<^verbatim>\<open>nullptr\<close>.\<close>

definition getWorldMatrix :: "handle_t \<Rightarrow> 'm transform_manager_t \<Rightarrow> error + 'm option" where
  "getWorldMatrix h m =
     (case getIndexFromId (transform m) h of
        Some idx \<Rightarrow> if idx < length (world m) then Inr (Some (world m ! idx)) else Inl OutOfBounds
      | None \<Rightarrow> Inr None)"

subsection \<open>sortTransforms\<close>

text \<open>The local struct \<^verbatim>\<open>transform_handle_t\<close> of \<^verbatim>\<open>sortTransforms\<close>, with its
  fields \<^verbatim>\<open>id\<close>, \<^verbatim>\<open>parent\<close> and \<^verbatim>\<open>level\<close>; its \<^verbatim>\<open>operator<\<close> compares
  \<^verbatim>\<open>level\<close>.\<close>

record transform_handle_t =
  t_id :: handle_t
  t_parent :: handle_t
  level :: nat

text \<open>The \<^verbatim>\<open>while\<close> loop of lines 144-148. It runs as long as \<^verbatim>\<open>parentId\<close>
  resolves; not returning is the value \<open>None\<close>. The counter is a \<^verbatim>\<open>u32\<close>; a walk
  that returns makes fewer steps than there are elements, so it is not reduced modulo
  \<open>2^32\<close> here.\<close>

partial_function (option) level_walk ::
  "'m packed_freelist_t \<Rightarrow> handle_t list \<Rightarrow> handle_t \<Rightarrow> nat \<Rightarrow> (error + nat) option" where
  "level_walk a ps parentId lvl =
     (case getIndexFromId a parentId of
        None \<Rightarrow> Some (Inr lvl)
      | Some parentIndex \<Rightarrow>
          if parentIndex < length ps
          then level_walk a ps (ps ! parentIndex) (lvl + 1)
          else Some (Inl OutOfBounds))"

declare level_walk.simps [code]

text \<open>One round of the first \<^verbatim>\<open>for\<close> loop, lines 140-148.\<close>

definition entry_at ::
  "'m transform_manager_t \<Rightarrow> nat \<Rightarrow> (error + transform_handle_t) option" where
  "entry_at m i =
     (if i < length (parent m)
      then (case level_walk (transform m) (parent m) (parent m ! i) 0 of
              None \<Rightarrow> None
            | Some (Inl e) \<Rightarrow> Some (Inl e)
            | Some (Inr l) \<Rightarrow>
                Some (Inr \<lparr>t_id = getIdFromIndex (transform m) i, t_parent = parent m ! i,
                           level = l\<rparr>))
      else Some (Inl OutOfBounds))"

text \<open>The first \<^verbatim>\<open>for\<close> loop, lines 138-149, over the positions given.\<close>

fun orderedTransform ::
  "'m transform_manager_t \<Rightarrow> nat list \<Rightarrow> (error + transform_handle_t list) option" where
  "orderedTransform m [] = Some (Inr [])"
| "orderedTransform m (i # is) =
     (case entry_at m i of
        None \<Rightarrow> None
      | Some (Inl e) \<Rightarrow> Some (Inl e)
      | Some (Inr x) \<Rightarrow>
          (case orderedTransform m is of
             None \<Rightarrow> None
           | Some (Inl e) \<Rightarrow> Some (Inl e)
           | Some (Inr xs) \<Rightarrow> Some (Inr (x # xs))))"

text \<open>The second \<^verbatim>\<open>for\<close> loop, lines 154-158.\<close>

fun reorder ::
  "transform_handle_t list \<Rightarrow> nat list \<Rightarrow> 'm transform_manager_t \<Rightarrow>
   error + 'm transform_manager_t" where
  "reorder es [] m = Inr m"
| "reorder es (i # is) m =
     (if i < length es \<and> i < length (parent m)
      then reorder es is
             (m\<lparr>transform := swap (getIdFromIndex (transform m) i) (t_id (es ! i)) (transform m),
                parent := (parent m)[i := t_parent (es ! i)]\<rparr>)
      else Inl OutOfBounds)"

text \<open>\<^verbatim>\<open>std::sort\<close> with the struct's \<^verbatim>\<open>operator<\<close>: the C++ standard promises a
  permutation of the input in which no element is less than an earlier one, and nothing
  about the order of elements that compare equal. The sort is a parameter \<open>srt\<close> of the
  model, and \<open>std_sort\<close> is what the standard promises of it.\<close>

definition std_sort :: "(transform_handle_t list \<Rightarrow> transform_handle_t list) \<Rightarrow> bool" where
  "std_sort srt \<longleftrightarrow>
     (\<forall>xs. mset (srt xs) = mset xs \<and> sorted_wrt (\<lambda>x y. \<not> level y < level x) (srt xs))"

text \<open>\<^verbatim>\<open>sortTransforms\<close>, lines 125-159.\<close>

definition sortTransforms ::
  "(transform_handle_t list \<Rightarrow> transform_handle_t list) \<Rightarrow> 'm transform_manager_t \<Rightarrow>
   (error + 'm transform_manager_t) option" where
  "sortTransforms srt m =
     (let count = getElementCount (transform m) in
      case orderedTransform m [0..<count] of
        None \<Rightarrow> None
      | Some (Inl e) \<Rightarrow> Some (Inl e)
      | Some (Inr es) \<Rightarrow> Some (reorder (srt es) [0..<count] m))"

subsection \<open>update\<close>

text \<open>One round of the loop of lines 175-182.\<close>

definition world_step :: "nat \<Rightarrow> 'm::times transform_manager_t \<Rightarrow> error + 'm transform_manager_t" where
  "world_step i m =
     (if i < length (world m) \<and> i < length (parent m)
      then (let w = (world m)[i := getData (transform m) ! i] in
            case getIndexFromId (transform m) (parent m ! i) of
              None \<Rightarrow> Inr (m\<lparr>world := w\<rparr>)
            | Some parentIndex \<Rightarrow>
                if parentIndex < length w
                then Inr (m\<lparr>world := w[i := w ! i * w ! parentIndex]\<rparr>)
                else Inl OutOfBounds)
      else Inl OutOfBounds)"

fun world_pass :: "nat list \<Rightarrow> 'm::times transform_manager_t \<Rightarrow> error + 'm transform_manager_t" where
  "world_pass [] m = Inr m"
| "world_pass (i # is) m =
     (case world_step i m of Inl e \<Rightarrow> Inl e | Inr m' \<Rightarrow> world_pass is m')"

text \<open>\<^verbatim>\<open>update\<close>, lines 161-183.\<close>

definition update ::
  "(transform_handle_t list \<Rightarrow> transform_handle_t list) \<Rightarrow> 'm::times transform_manager_t \<Rightarrow>
   (error + 'm transform_manager_t) option" where
  "update srt m =
     (case (if hierarchy_changed m
            then (case sortTransforms srt m of
                    None \<Rightarrow> None
                  | Some (Inl e) \<Rightarrow> Some (Inl e)
                  | Some (Inr m') \<Rightarrow> Some (Inr (m'\<lparr>hierarchy_changed := False\<rparr>)))
            else Some (Inr m)) of
        None \<Rightarrow> None
      | Some (Inl e) \<Rightarrow> Some (Inl e)
      | Some (Inr m1) \<Rightarrow> Some (world_pass [0..<getElementCount (transform m1)] m1))"

subsection \<open>Sequences of calls\<close>

text \<open>The public calls of the manager, and a client that makes them one after the other.
  \<open>None\<close> is a call that does not return.\<close>

datatype 'm call =
    CreateTransform 'm
  | DestroyTransform handle_t
  | SetTransform handle_t 'm
  | SetParent handle_t handle_t
  | Update

fun call_step ::
  "(transform_handle_t list \<Rightarrow> transform_handle_t list) \<Rightarrow> 'm::{times,default} call \<Rightarrow>
   'm transform_manager_t \<Rightarrow> (error + 'm transform_manager_t) option" where
  "call_step srt (CreateTransform t) m = Some (map_sum id snd (createTransform t m))"
| "call_step srt (DestroyTransform h) m = Some (map_sum id snd (destroyTransform h m))"
| "call_step srt (SetTransform h t) m = Some (Inr (snd (setTransform h t m)))"
| "call_step srt (SetParent h p) m = Some (map_sum id snd (setParent h p m))"
| "call_step srt Update m = update srt m"

fun run ::
  "(transform_handle_t list \<Rightarrow> transform_handle_t list) \<Rightarrow> 'm::{times,default} call list \<Rightarrow>
   'm transform_manager_t \<Rightarrow> (error + 'm transform_manager_t) option" where
  "run srt [] m = Some (Inr m)"
| "run srt (c # cs) m =
     (case call_step srt c m of
        None \<Rightarrow> None
      | Some (Inl e) \<Rightarrow> Some (Inl e)
      | Some (Inr m') \<Rightarrow> run srt cs m')"

text \<open>The calls of the allocator that change it, and a client that makes them one after
  the other.\<close>

datatype 'a freelist_call =
    Add 'a
  | Remove handle_t
  | Swap handle_t handle_t
  | Put handle_t 'a

fun freelist_step :: "'a freelist_call \<Rightarrow> 'a packed_freelist_t \<Rightarrow> 'a packed_freelist_t" where
  "freelist_step (Add e) a = snd (add e a)"
| "freelist_step (Remove h) a = snd (remove h a)"
| "freelist_step (Swap x y) a = swap x y a"
| "freelist_step (Put h v) a = put h v a"

section \<open>Matrices\<close>

text \<open>Modelled from the spec: \<^verbatim>\<open>maths::mat4\<close>, its product and \<^verbatim>\<open>translate\<close>, of a
  header that is not among the sources. The manager is written for any type with a
  product and a value-initialised element; this one is the 4x4 matrices, as rows, over
  the integers, with the usual product and the translation in the last row.\<close>

datatype mat4 = Mat4 "int list list"

definition mat_mul :: "int list list \<Rightarrow> int list list \<Rightarrow> int list list" where
  "mat_mul A B = map (\<lambda>row. map (\<lambda>col. sum_list (map2 (*) row col)) (transpose B)) A"

instantiation mat4 :: times
begin

fun times_mat4 :: "mat4 \<Rightarrow> mat4 \<Rightarrow> mat4" where
  "times_mat4 (Mat4 A) (Mat4 B) = Mat4 (mat_mul A B)"

instance ..

end

instantiation mat4 :: default
begin

definition default_mat4 :: mat4 where
  "default_mat4 = Mat4 [ [1, 0, 0, 0], [0, 1, 0, 0], [0, 0, 1, 0], [0, 0, 0, 1] ]"

instance ..

end

definition translate :: "int \<Rightarrow> int \<Rightarrow> int \<Rightarrow> mat4" where
  "translate x y z = Mat4 [ [1, 0, 0, 0], [0, 1, 0, 0], [0, 0, 1, 0], [x, y, z, 1] ]"

section \<open>Invariants\<close>

text \<open>The allocator's invariant: "dense.length == number of occupied sparse slots; every
  occupied sparse slot's dense position is unique and in [0, dense.length)". Every slot is
  either occupied or on the free list.\<close>

definition alloc_inv :: "'a packed_freelist_t \<Rightarrow> bool" where
  "alloc_inv a \<longleftrightarrow>
     length (dense a) + length (freeList a) = length (slots a) \<and>
     (\<forall>i<length (dense a).
        fst (dense a ! i) < length (slots a) \<and> occupied (slots a ! fst (dense a ! i)) \<and>
        position (slots a ! fst (dense a ! i)) = i) \<and>
     (\<forall>k<length (slots a).
        occupied (slots a ! k) \<longrightarrow>
          position (slots a ! k) < length (dense a) \<and>
          fst (dense a ! position (slots a ! k)) = k) \<and>
     (\<forall>k\<in>set (freeList a). k < length (slots a) \<and> \<not> occupied (slots a ! k)) \<and>
     distinct (freeList a)"

text \<open>The manager's invariant: the allocator's invariant, \<^verbatim>\<open>parent_\<close> and
  \<^verbatim>\<open>world_\<close> as long as the slot table, and, while \<^verbatim>\<open>hierarchy_changed_\<close> is
  clear, every transform stored after its parent.\<close>

definition parent_index :: "'m transform_manager_t \<Rightarrow> nat \<Rightarrow> nat option" where
  "parent_index m i = getIndexFromId (transform m) (parent m ! i)"

definition ordered :: "'m transform_manager_t \<Rightarrow> bool" where
  "ordered m \<longleftrightarrow>
     (\<forall>i<getElementCount (transform m).
        case parent_index m i of None \<Rightarrow> True | Some p \<Rightarrow> p < i)"

definition mgr_inv :: "'m transform_manager_t \<Rightarrow> bool" where
  "mgr_inv m \<longleftrightarrow>
     alloc_inv (transform m) \<and>
     length (parent m) = length (slots (transform m)) \<and>
     length (world m) = length (parent m) \<and>
     (\<not> hierarchy_changed m \<longrightarrow> ordered m)"

text \<open>The parenting relation restricted to valid handles, on dense positions: \<open>(i, p)\<close>
  when the parent handle of the transform at \<open>i\<close> resolves to position \<open>p\<close>. It is a
  forest when it has no cycle.\<close>

definition parent_rel :: "'m transform_manager_t \<Rightarrow> (nat \<times> nat) set" where
  "parent_rel m = {(i, p). i < getElementCount (transform m) \<and> parent_index m i = Some p}"

definition forest :: "'m transform_manager_t \<Rightarrow> bool" where
  "forest m \<longleftrightarrow> acyclic (parent_rel m)"

text \<open>\<open>hops a ps h n\<close>: following \<open>ps\<close> from the handle \<open>h\<close> reaches a handle that does
  not resolve after \<open>n\<close> steps.\<close>

inductive hops :: "'m packed_freelist_t \<Rightarrow> handle_t list \<Rightarrow> handle_t \<Rightarrow> nat \<Rightarrow> bool"
  for a :: "'m packed_freelist_t" and ps :: "handle_t list" where
  hops_root: "getIndexFromId a h = None \<Longrightarrow> hops a ps h 0"
| hops_step: "getIndexFromId a h = Some p \<Longrightarrow> p < length ps \<Longrightarrow> hops a ps (ps ! p) n \<Longrightarrow>
     hops a ps h (Suc n)"

code_pred hops .

text \<open>Two sorts that \<^verbatim>\<open>std::sort\<close> may be: insertion sort, which keeps entries of equal
  level in their order, and insertion sort of the reversed sequence, which reverses them.\<close>

definition stable_sort :: "transform_handle_t list \<Rightarrow> transform_handle_t list" where
  "stable_sort xs = sort_key level xs"

definition reversing_sort :: "transform_handle_t list \<Rightarrow> transform_handle_t list" where
  "reversing_sort xs = sort_key level (rev xs)"

text \<open>\<open>keeps_ties xs ys\<close>: the entries of each level are in \<open>ys\<close> in the order they have
  in \<open>xs\<close>.\<close>

definition keeps_ties :: "transform_handle_t list \<Rightarrow> transform_handle_t list \<Rightarrow> bool" where
  "keeps_ties xs ys \<longleftrightarrow>
     (\<forall>l\<in>set (map level xs). filter (\<lambda>e. level e = l) ys = filter (\<lambda>e. level e = l) xs)"

text \<open>A handle is stale when its slot has moved on to a later generation.\<close>

definition stale :: "'a packed_freelist_t \<Rightarrow> handle_t \<Rightarrow> bool" where
  "stale a h \<longleftrightarrow>
     index h < length (slots a) \<and> generation h < slot_generation (slots a ! index h)"

section \<open>Concrete scenes\<close>

definition hA :: handle_t where "hA = \<lparr>index = 0, generation = 0\<rparr>"
definition hB :: handle_t where "hB = \<lparr>index = 1, generation = 0\<rparr>"
definition hC :: handle_t where "hC = \<lparr>index = 2, generation = 0\<rparr>"
definition hD :: handle_t where "hD = \<lparr>index = 0, generation = 1\<rparr>"

text \<open>Three transforms A, B, C, with C under B and A under C, and then A destroyed: C has
  moved to position 0 and the logical index 0 is on the free list.\<close>

definition after_destroy :: "mat4 transform_manager_t" where
  "after_destroy =
     \<lparr>transform =
        \<lparr>dense = [(2, translate 0 0 1), (1, translate 0 1 0)],
         slots = [\<lparr>position = 0, slot_generation = 1, occupied = False\<rparr>,
                  \<lparr>position = 1, slot_generation = 0, occupied = True\<rparr>,
                  \<lparr>position = 0, slot_generation = 0, occupied = True\<rparr>],
         freeList = [0]\<rparr>,
      parent = [hB, NULL_HANDLE, hC], world = [default, default, default],
      hierarchy_changed = True\<rparr>"

text \<open>The same scene after one more \<^verbatim>\<open>createTransform\<close>.\<close>

definition after_create :: "mat4 transform_manager_t" where
  "after_create =
     \<lparr>transform =
        \<lparr>dense = [(2, translate 0 0 1), (1, translate 0 1 0), (0, translate 5 5 5)],
         slots = [\<lparr>position = 2, slot_generation = 1, occupied = True\<rparr>,
                  \<lparr>position = 1, slot_generation = 0, occupied = True\<rparr>,
                  \<lparr>position = 0, slot_generation = 0, occupied = True\<rparr>],
         freeList = []\<rparr>,
      parent = [NULL_HANDLE, NULL_HANDLE, hC], world = [default, default, default],
      hierarchy_changed = True\<rparr>"

text \<open>An allocator holding one element.\<close>

definition one_element :: "mat4 packed_freelist_t" where
  "one_element =
     \<lparr>dense = [(0, translate 1 0 0)],
      slots = [\<lparr>position = 0, slot_generation = 0, occupied = True\<rparr>],
      freeList = []\<rparr>"

text \<open>A, B and C, with B under A and C under B, before the first \<^verbatim>\<open>update\<close>.\<close>

definition chain_scene :: "mat4 transform_manager_t" where
  "chain_scene =
     \<lparr>transform =
        \<lparr>dense = [(0, translate 1 0 0), (1, translate 0 1 0), (2, translate 0 0 1)],
         slots = [\<lparr>position = 0, slot_generation = 0, occupied = True\<rparr>,
                  \<lparr>position = 1, slot_generation = 0, occupied = True\<rparr>,
                  \<lparr>position = 2, slot_generation = 0, occupied = True\<rparr>],
         freeList = []\<rparr>,
      parent = [NULL_HANDLE, hA, hB], world = [default, default, default],
      hierarchy_changed = True\<rparr>"

text \<open>A and B, two roots.\<close>

definition two_roots :: "mat4 transform_manager_t" where
  "two_roots =
     \<lparr>transform =
        \<lparr>dense = [(0, translate 1 0 0), (1, translate 0 1 0)],
         slots = [\<lparr>position = 0, slot_generation = 0, occupied = True\<rparr>,
                  \<lparr>position = 1, slot_generation = 0, occupied = True\<rparr>],
         freeList = []\<rparr>,
      parent = [NULL_HANDLE, NULL_HANDLE], world = [default, default],
      hierarchy_changed = True\<rparr>"

definition entry_A :: transform_handle_t where
  "entry_A = \<lparr>t_id = hA, t_parent = NULL_HANDLE, level = 0\<rparr>"

definition entry_B :: transform_handle_t where
  "entry_B = \<lparr>t_id = hB, t_parent = NULL_HANDLE, level = 0\<rparr>"

text \<open>B under A, and A destroyed: the parent handle of B is stale.\<close>

definition orphan_scene :: "mat4 transform_manager_t" where
  "orphan_scene =
     \<lparr>transform =
        \<lparr>dense = [(1, translate 0 1 0)],
         slots = [\<lparr>position = 0, slot_generation = 1, occupied = False\<rparr>,
                  \<lparr>position = 0, slot_generation = 0, occupied = True\<rparr>],
         freeList = [0]\<rparr>,
      parent = [hA, NULL_HANDLE], world = [default, default],
      hierarchy_changed = True\<rparr>"

text \<open>A alone, set to be its own parent.\<close>

definition cycle_scene :: "mat4 transform_manager_t" where
  "cycle_scene =
     \<lparr>transform =
        \<lparr>dense = [(0, translate 1 0 0)],
         slots = [\<lparr>position = 0, slot_generation = 0, occupied = True\<rparr>],
         freeList = []\<rparr>,
      parent = [hA], world = [default],
      hierarchy_changed = True\<rparr>"

text \<open>A and B, with A under B: the child is stored before its parent.\<close>

definition child_first :: "mat4 transform_manager_t" where
  "child_first =
     \<lparr>transform =
        \<lparr>dense = [(0, translate 1 0 0), (1, translate 0 1 0)],
         slots = [\<lparr>position = 0, slot_generation = 0, occupied = True\<rparr>,
                  \<lparr>position = 1, slot_generation = 0, occupied = True\<rparr>],
         freeList = []\<rparr>,
      parent = [hB, NULL_HANDLE], world = [default, default],
      hierarchy_changed = True\<rparr>"

text \<open>A, B and C, with B under C, C destroyed, and A set to be its own parent.\<close>

definition cycle_and_orphan :: "mat4 transform_manager_t" where
  "cycle_and_orphan =
     \<lparr>transform =
        \<lparr>dense = [(0, translate 1 0 0), (1, translate 0 1 0)],
         slots = [\<lparr>position = 0, slot_generation = 0, occupied = True\<rparr>,
                  \<lparr>position = 1, slot_generation = 0, occupied = True\<rparr>,
                  \<lparr>position = 2, slot_generation = 1, occupied = False\<rparr>],
         freeList = [2]\<rparr>,
      parent = [hA, hC, NULL_HANDLE], world = [default, default, default],
      hierarchy_changed = True\<rparr>"

section \<open>Evaluation of concrete scenes\<close>

lemmas manager_defs =
  createTransform_def destroyTransform_def setParent_def getParent_def getWorldMatrix_def
  getTransform_def setTransform_def get_def put_def add_def remove_def swap_def
  getIndexFromId_def is_valid_def getIdFromIndex_def getElementCount_def getData_def
  swap_at_def resize_def empty_manager_def empty_freelist_def Let_def

lemmas handle_defs = hA_def hB_def hC_def hD_def NULL_HANDLE_def

lemmas scene_defs = chain_scene_def two_roots_def orphan_scene_def cycle_scene_def
  after_destroy_def after_create_def child_first_def cycle_and_orphan_def

section \<open>Properties of the allocator\<close>

lemma alloc_inv_empty: "alloc_inv empty_freelist"
  by (simp add: alloc_inv_def empty_freelist_def)

lemma alloc_inv_count: "alloc_inv a \<Longrightarrow> length (dense a) + length (freeList a) = length (slots a)"
  by (simp add: alloc_inv_def)

lemma alloc_inv_dense:
  "alloc_inv a \<Longrightarrow> i < length (dense a) \<Longrightarrow>
   fst (dense a ! i) < length (slots a) \<and> occupied (slots a ! fst (dense a ! i)) \<and>
   position (slots a ! fst (dense a ! i)) = i"
  by (simp add: alloc_inv_def)

lemma alloc_inv_slot:
  "alloc_inv a \<Longrightarrow> k < length (slots a) \<Longrightarrow> occupied (slots a ! k) \<Longrightarrow>
   position (slots a ! k) < length (dense a) \<and> fst (dense a ! position (slots a ! k)) = k"
  by (simp add: alloc_inv_def)

lemma alloc_inv_free:
  "alloc_inv a \<Longrightarrow> k \<in> set (freeList a) \<Longrightarrow> k < length (slots a) \<and> \<not> occupied (slots a ! k)"
  by (simp add: alloc_inv_def)

lemma alloc_inv_distinct: "alloc_inv a \<Longrightarrow> distinct (freeList a)"
  by (simp add: alloc_inv_def)

lemma slot_position_inj:
  "alloc_inv a \<Longrightarrow> k < length (slots a) \<Longrightarrow> k' < length (slots a) \<Longrightarrow>
   occupied (slots a ! k) \<Longrightarrow> occupied (slots a ! k') \<Longrightarrow>
   position (slots a ! k) = position (slots a ! k') \<Longrightarrow> k = k'"
  by (metis alloc_inv_slot)

lemma getIndexFromId_Some_iff:
  "alloc_inv a \<Longrightarrow> getIndexFromId a h = Some i \<longleftrightarrow> (i < length (dense a) \<and> getIdFromIndex a i = h)"
  unfolding getIndexFromId_def getIdFromIndex_def is_valid_def alloc_inv_def
  by (cases h) auto

lemma alloc_inv_add: "alloc_inv a \<Longrightarrow> alloc_inv (snd (add e a))"
  unfolding alloc_inv_def add_def Let_def
  by (auto simp: nth_append nth_list_update split: list.splits)

lemma alloc_inv_swap:
  assumes inv: "alloc_inv a"
  shows "alloc_inv (swap x y a)"
proof (cases "getIndexFromId a x")
  case None
  then show ?thesis using inv by (simp add: swap_def)
next
  case (Some px)
  note X = this
  show ?thesis
  proof (cases "getIndexFromId a y")
    case None
    then show ?thesis using inv X by (simp add: swap_def)
  next
    case (Some py)
    have vx: "index x < length (slots a)" "occupied (slots a ! index x)" "position (slots a ! index x) = px"
      using X by (auto simp: getIndexFromId_def is_valid_def split: if_splits)
    have vy: "index y < length (slots a)" "occupied (slots a ! index y)" "position (slots a ! index y) = py"
      using Some by (auto simp: getIndexFromId_def is_valid_def split: if_splits)
    have px: "px < length (dense a)" "fst (dense a ! px) = index x"
      using alloc_inv_slot[OF inv vx(1) vx(2)] vx(3) by auto
    have py: "py < length (dense a)" "fst (dense a ! py) = index y"
      using alloc_inv_slot[OF inv vy(1) vy(2)] vy(3) by auto
    let ?a' = "swap x y a"
    have d': "dense ?a' = swap_at px py (dense a)"
      and s': "slots ?a' = (slots a)[index x := (slots a ! index x)\<lparr>position := py\<rparr>,
                                    index y := (slots a ! index y)\<lparr>position := px\<rparr>]"
      and f': "freeList ?a' = freeList a"
      using X Some by (simp_all add: swap_def)
    have xy: "index x = index y \<Longrightarrow> px = py" using vx vy by auto
    have occ: "\<And>k. k < length (slots a) \<Longrightarrow> occupied (slots ?a' ! k) = occupied (slots a ! k)"
      using vx vy by (auto simp: s' nth_list_update)
    have pos: "\<And>k. k < length (slots a) \<Longrightarrow> position (slots ?a' ! k) =
        (if k = index y then px else if k = index x then py else position (slots a ! k))"
      using vx vy by (auto simp: s' nth_list_update)
    have own: "\<And>i. i < length (dense a) \<Longrightarrow> fst (dense ?a' ! i) =
        (if i = py then index x else if i = px then index y else fst (dense a ! i))"
      using px py by (auto simp: d' swap_at_def nth_list_update)
    show ?thesis
      unfolding alloc_inv_def
    proof (intro conjI allI impI ballI)
      show "length (dense ?a') + length (freeList ?a') = length (slots ?a')"
        using alloc_inv_count[OF inv] by (simp add: d' s' f' swap_at_def)
    next
      fix i assume "i < length (dense ?a')"
      then have i: "i < length (dense a)" by (simp add: d' swap_at_def)
      have a: "fst (dense a ! i) < length (slots a)" "occupied (slots a ! fst (dense a ! i))"
        "position (slots a ! fst (dense a ! i)) = i"
        using alloc_inv_dense[OF inv i] by auto
      have ne: "i \<noteq> py \<Longrightarrow> fst (dense a ! i) \<noteq> index y" "i \<noteq> px \<Longrightarrow> fst (dense a ! i) \<noteq> index x"
        using a vx vy by auto
      show "fst (dense ?a' ! i) < length (slots ?a')" using a vx vy i by (simp add: own) (simp add: s')
      show "occupied (slots ?a' ! fst (dense ?a' ! i))"
        using a vx vy i by (simp add: own occ)
      show "position (slots ?a' ! fst (dense ?a' ! i)) = i"
      proof -
        consider "i = py" | "i \<noteq> py" "i = px" | "i \<noteq> py" "i \<noteq> px" by blast
        then show ?thesis
        proof cases
          case 1
          have "fst (dense ?a' ! i) = index x" using own[OF i] 1 by simp
          moreover have "position (slots ?a' ! index x) = py"
            using pos[OF vx(1)] xy by (cases "index x = index y") simp_all
          ultimately show ?thesis using 1 by simp
        next
          case 2
          have "fst (dense ?a' ! i) = index y" using own[OF i] 2 by simp
          moreover have "position (slots ?a' ! index y) = px"
            using pos[OF vy(1)] by simp
          ultimately show ?thesis using 2 by simp
        next
          case 3
          have "fst (dense ?a' ! i) = fst (dense a ! i)" using own[OF i] 3 by simp
          moreover have "position (slots ?a' ! fst (dense a ! i)) = position (slots a ! fst (dense a ! i))"
            using pos[OF a(1)] ne 3 by simp
          ultimately show ?thesis using a(3) by simp
        qed
      qed
    next
      fix k assume "k < length (slots ?a')" and o: "occupied (slots ?a' ! k)"
      then have k: "k < length (slots a)" by (simp add: s')
      then have ok: "occupied (slots a ! k)" using o occ by simp
      have b: "position (slots a ! k) < length (dense a)" "fst (dense a ! position (slots a ! k)) = k"
        using alloc_inv_slot[OF inv k ok] by auto
      have ne: "k \<noteq> index x \<Longrightarrow> position (slots a ! k) \<noteq> px" "k \<noteq> index y \<Longrightarrow> position (slots a ! k) \<noteq> py"
        using b px py by auto
      show "position (slots ?a' ! k) < length (dense ?a')"
        using k b px py by (simp add: pos) (simp add: d' swap_at_def)
      show "fst (dense ?a' ! position (slots ?a' ! k)) = k"
      proof -
        consider "k = index y" | "k \<noteq> index y" "k = index x" | "k \<noteq> index y" "k \<noteq> index x" by blast
        then show ?thesis
        proof cases
          case 1
          have "position (slots ?a' ! k) = px" using pos[OF k] 1 by simp
          moreover have "fst (dense ?a' ! px) = index y"
            using own[OF px(1)] xy py(2) px(2) by (cases "px = py") auto
          ultimately show ?thesis using 1 by simp
        next
          case 2
          have "position (slots ?a' ! k) = py" using pos[OF k] 2 by simp
          moreover have "fst (dense ?a' ! py) = index x"
            using own[OF py(1)] by simp
          ultimately show ?thesis using 2 by simp
        next
          case 3
          have "position (slots ?a' ! k) = position (slots a ! k)" using pos[OF k] 3 by simp
          moreover have "fst (dense ?a' ! position (slots a ! k)) = fst (dense a ! position (slots a ! k))"
            using own[OF b(1)] ne 3 by simp
          ultimately show ?thesis using b(2) by simp
        qed
      qed
    next
      fix k assume "k \<in> set (freeList ?a')"
      then have "k \<in> set (freeList a)" by (simp add: f')
      then have "k < length (slots a) \<and> \<not> occupied (slots a ! k)" using alloc_inv_free[OF inv] by simp
      then show "k < length (slots ?a')" "\<not> occupied (slots ?a' ! k)" using occ by (simp_all add: s')
    next
      show "distinct (freeList ?a')" using alloc_inv_distinct[OF inv] by (simp add: f')
    qed
  qed
qed

lemma alloc_inv_cong:
  "map fst (dense a') = map fst (dense a) \<Longrightarrow> slots a' = slots a \<Longrightarrow>
   freeList a' = freeList a \<Longrightarrow> alloc_inv a' = alloc_inv a"
proof -
  assume m: "map fst (dense a') = map fst (dense a)" and s: "slots a' = slots a"
    and f: "freeList a' = freeList a"
  have l: "length (dense a') = length (dense a)" using m by (metis length_map)
  have n: "\<And>i. i < length (dense a) \<Longrightarrow> fst (dense a' ! i) = fst (dense a ! i)"
    using m l by (metis nth_map)
  show ?thesis unfolding alloc_inv_def l s f
    by (simp add: n cong: conj_cong)
qed

lemma map_fst_update_same: "(map fst d)[i := fst (d ! i)] = map fst d"
  by (cases "i < length d") (simp_all add: list_update_same_conv list_update_beyond)

lemma alloc_inv_put: "alloc_inv a \<Longrightarrow> alloc_inv (put h v a)"
  by (subst alloc_inv_cong[of _ a]) (auto simp: put_def map_update map_fst_update_same split: option.splits)

section \<open>The allocator's swap\<close>

lemma is_valid_resolve:
  "getIndexFromId a h = Some p \<longleftrightarrow> is_valid a h \<and> position (slots a ! index h) = p"
  by (auto simp: getIndexFromId_def)

lemma getIdFromIndex_resolve:
  "alloc_inv a \<Longrightarrow> i < length (dense a) \<Longrightarrow> getIndexFromId a (getIdFromIndex a i) = Some i"
  by (simp add: getIndexFromId_Some_iff)

lemma resolve_inj:
  "alloc_inv a \<Longrightarrow> getIndexFromId a h = Some p \<Longrightarrow> getIndexFromId a h' = Some p \<Longrightarrow> h = h'"
  by (simp add: getIndexFromId_Some_iff)

lemma swap_facts:
  assumes inv: "alloc_inv a"
    and X: "getIndexFromId a x = Some px"
    and Y: "getIndexFromId a y = Some py"
  shows "length (dense (swap x y a)) = length (dense a)"
    and "length (slots (swap x y a)) = length (slots a)"
    and "\<And>h. is_valid (swap x y a) h = is_valid a h"
    and "\<And>i. i < length (dense a) \<Longrightarrow> getIdFromIndex (swap x y a) i =
          (if i = px then y else if i = py then x else getIdFromIndex a i)"
    and "\<And>h. get (swap x y a) h = get a h"
proof -
  let ?a' = "swap x y a"
  have vx: "is_valid a x" "index x < length (slots a)" "occupied (slots a ! index x)"
    "position (slots a ! index x) = px" "slot_generation (slots a ! index x) = generation x"
    using X by (auto simp: getIndexFromId_def is_valid_def split: if_splits)
  have vy: "is_valid a y" "index y < length (slots a)" "occupied (slots a ! index y)"
    "position (slots a ! index y) = py" "slot_generation (slots a ! index y) = generation y"
    using Y by (auto simp: getIndexFromId_def is_valid_def split: if_splits)
  have px: "px < length (dense a)" "fst (dense a ! px) = index x"
    using alloc_inv_slot[OF inv vx(2) vx(3)] vx(4) by auto
  have py: "py < length (dense a)" "fst (dense a ! py) = index y"
    using alloc_inv_slot[OF inv vy(2) vy(3)] vy(4) by auto
  have d': "dense ?a' = swap_at px py (dense a)"
    and s': "slots ?a' = (slots a)[index x := (slots a ! index x)\<lparr>position := py\<rparr>,
                                  index y := (slots a ! index y)\<lparr>position := px\<rparr>]"
    using X Y by (simp_all add: swap_def)
  show len: "length (dense ?a') = length (dense a)" by (simp add: d' swap_at_def)
  show lens: "length (slots ?a') = length (slots a)" by (simp add: s')
  have occ: "occupied (slots ?a' ! k) = occupied (slots a ! k)" if "k < length (slots a)" for k
    using that vx(2) vy(2) by (auto simp: s' nth_list_update)
  have gen: "slot_generation (slots ?a' ! k) = slot_generation (slots a ! k)" if "k < length (slots a)" for k
    using that vx(2) vy(2) by (auto simp: s' nth_list_update)
  have pos: "position (slots ?a' ! k) =
        (if k = index y then px else if k = index x then py else position (slots a ! k))"
    if "k < length (slots a)" for k
    using that vx(2) vy(2) by (auto simp: s' nth_list_update)
  show val: "is_valid ?a' h = is_valid a h" for h
    by (auto simp: is_valid_def lens occ gen)
  have dn: "dense ?a' ! i = (if i = py then dense a ! px else if i = px then dense a ! py else dense a ! i)"
    if "i < length (dense a)" for i
    using that px py by (auto simp: d' swap_at_def nth_list_update)
  show "getIdFromIndex ?a' i = (if i = px then y else if i = py then x else getIdFromIndex a i)"
    if i: "i < length (dense a)" for i
  proof -
    consider "i = py" | "i \<noteq> py" "i = px" | "i \<noteq> py" "i \<noteq> px" by blast
    then show ?thesis
    proof cases
      case 1
      have "getIdFromIndex ?a' i = \<lparr>index = index x, generation = generation x\<rparr>"
        using 1 i dn[OF i] px vx by (simp add: getIdFromIndex_def len gen)
      moreover have "px = py \<Longrightarrow> x = y" using resolve_inj[OF inv X] Y by simp
      ultimately show ?thesis using 1 by auto
    next
      case 2
      have "getIdFromIndex ?a' i = \<lparr>index = index y, generation = generation y\<rparr>"
        using 2 i dn[OF i] py vy by (simp add: getIdFromIndex_def len gen)
      then show ?thesis using 2 by simp
    next
      case 3
      have "fst (dense a ! i) < length (slots a)" using alloc_inv_dense[OF inv i] by simp
      then show ?thesis using 3 i dn[OF i] by (simp add: getIdFromIndex_def len gen)
    qed
  qed
  show "get ?a' h = get a h" for h
  proof (cases "is_valid a h")
    case False
    then show ?thesis using val[of h] by (simp add: get_def getIndexFromId_def)
  next
    case True
    then have k: "index h < length (slots a)" "occupied (slots a ! index h)" by (auto simp: is_valid_def)
    have ph: "position (slots a ! index h) < length (dense a)"
      using alloc_inv_slot[OF inv k] by simp
    consider "index h = index y" | "index h \<noteq> index y" "index h = index x"
      | "index h \<noteq> index y" "index h \<noteq> index x" by blast
    then have "snd (dense ?a' ! position (slots ?a' ! index h)) = snd (dense a ! position (slots a ! index h))"
    proof cases
      case 1
      then show ?thesis using pos[OF k(1)] dn[OF px(1)] vy(4) by (cases "px = py") simp_all
    next
      case 2
      then show ?thesis using pos[OF k(1)] dn[OF py(1)] vx(4) by simp
    next
      case 3
      have "position (slots a ! index h) \<noteq> px" "position (slots a ! index h) \<noteq> py"
        using 3 slot_position_inj[OF inv k(1) vx(2) k(2) vx(3)] slot_position_inj[OF inv k(1) vy(2) k(2) vy(3)] vx(4) vy(4)
        by auto
      then show ?thesis using 3 pos[OF k(1)] dn[OF ph] by simp
    qed
    then show ?thesis using True val[of h] by (simp add: get_def getIndexFromId_def)
  qed
qed

section \<open>The depth walk\<close>

lemma level_walk_None: "getIndexFromId a h = None \<Longrightarrow> level_walk a ps h l = Some (Inr l)"
  by (subst level_walk.simps) simp

lemma level_walk_Some:
  "getIndexFromId a h = Some p \<Longrightarrow> p < length ps \<Longrightarrow> level_walk a ps h l = level_walk a ps (ps ! p) (l + 1)"
  by (subst level_walk.simps) simp

lemma level_walk_hops: "hops a ps h n \<Longrightarrow> level_walk a ps h l = Some (Inr (l + n))"
  by (induction arbitrary: l rule: hops.induct) (simp_all add: level_walk_None level_walk_Some)

lemma hops_det: "hops a ps h n \<Longrightarrow> hops a ps h n' \<Longrightarrow> n = n'"
proof (induction arbitrary: n' rule: hops.induct)
  case (hops_root h)
  then show ?case by (auto elim: hops.cases)
next
  case (hops_step h p n)
  from hops_step.prems hops_step.hyps(1) obtain k where "n' = Suc k" "hops a ps (ps ! p) k"
    by (auto elim: hops.cases)
  then show ?case using hops_step.IH by simp
qed

lemma level_walk_returns:
  "level_walk a ps h l = Some r \<Longrightarrow>
   (\<forall>h p. getIndexFromId a h = Some p \<longrightarrow> p < length ps) \<Longrightarrow>
   \<exists>n. hops a ps h n \<and> r = Inr (l + n)"
proof (induction a ps h l r rule: level_walk.raw_induct[rotated 1, consumes 1])
  case (1 lw a ps h l r)
  show ?case
  proof (cases "getIndexFromId a h")
    case None
    then show ?thesis using 1(2) by (auto intro: hops_root)
  next
    case (Some p)
    then have p: "p < length ps" using 1(3) by simp
    with Some 1(2) have "lw a ps (ps ! p) (l + 1) = Some r" by simp
    from 1(1)[OF this 1(3)] obtain n where "hops a ps (ps ! p) n" "r = Inr (l + 1 + n)" by auto
    then show ?thesis using Some p by (auto intro: hops_step)
  qed
qed

section \<open>Forests and termination\<close>

lemma resolve_bound:
  "alloc_inv a \<Longrightarrow> length (dense a) \<le> length ps \<Longrightarrow> getIndexFromId a h = Some p \<Longrightarrow> p < length ps"
  by (auto simp: getIndexFromId_Some_iff)

lemma parent_rel_bound:
  "alloc_inv (transform m) \<Longrightarrow> (i, p) \<in> parent_rel m \<Longrightarrow>
   i < length (dense (transform m)) \<and> p < length (dense (transform m))"
  by (auto simp: parent_rel_def parent_index_def getElementCount_def getIndexFromId_Some_iff)

lemma finite_parent_rel: "alloc_inv (transform m) \<Longrightarrow> finite (parent_rel m)"
proof -
  assume inv: "alloc_inv (transform m)"
  have "parent_rel m \<subseteq> {..<length (dense (transform m))} \<times> {..<length (dense (transform m))}"
    using parent_rel_bound[OF inv] by auto
  then show ?thesis by (rule finite_subset) simp
qed

lemma hops_exists:
  assumes inv: "alloc_inv (transform m)"
    and len: "length (dense (transform m)) \<le> length (parent m)"
    and ac: "acyclic (parent_rel m)"
  shows "i < length (dense (transform m)) \<Longrightarrow> \<exists>n. hops (transform m) (parent m) (parent m ! i) n"
proof -
  have wf: "wf ((parent_rel m)\<inverse>)"
    using finite_parent_rel[OF inv] ac by (rule finite_acyclic_wf_converse)
  show "i < length (dense (transform m)) \<Longrightarrow> \<exists>n. hops (transform m) (parent m) (parent m ! i) n"
    using wf
  proof (induction i rule: wf_induct_rule)
    case (less i)
    show ?case
    proof (cases "getIndexFromId (transform m) (parent m ! i)")
      case None
      then show ?thesis by (auto intro: hops_root)
    next
      case (Some p)
      then have r: "(i, p) \<in> parent_rel m"
        using less.prems by (simp add: parent_rel_def parent_index_def getElementCount_def)
      then have p: "p < length (dense (transform m))" using parent_rel_bound[OF inv] by blast
      from less.IH[of p] r p obtain n where "hops (transform m) (parent m) (parent m ! p) n" by auto
      moreover have "p < length (parent m)" using p len by simp
      ultimately show ?thesis using Some by (blast intro: hops_step)
    qed
  qed
qed

lemma hops_parent:
  "(i, j) \<in> parent_rel m \<Longrightarrow> hops (transform m) (parent m) (parent m ! i) n \<Longrightarrow>
   \<exists>k. n = Suc k \<and> hops (transform m) (parent m) (parent m ! j) k"
  by (auto simp: parent_rel_def parent_index_def elim: hops.cases)

lemma hops_ancestor:
  "(i, j) \<in> (parent_rel m)\<^sup>+ \<Longrightarrow> hops (transform m) (parent m) (parent m ! i) n \<Longrightarrow>
   \<exists>k<n. hops (transform m) (parent m) (parent m ! j) k"
proof (induction arbitrary: rule: trancl_induct)
  case (base j)
  then show ?case using hops_parent by blast
next
  case (step j k)
  then obtain n' where n': "n' < n" "hops (transform m) (parent m) (parent m ! j) n'" by blast
  from hops_parent[OF step.hyps(2) n'(2)] obtain k' where "n' = Suc k'"
    "hops (transform m) (parent m) (parent m ! k) k'" by blast
  moreover have "k' < n" using n'(1) calculation(1) by simp
  ultimately show ?case by blast
qed

lemma cycle_no_hops:
  "(i, i) \<in> (parent_rel m)\<^sup>+ \<Longrightarrow> \<not> hops (transform m) (parent m) (parent m ! i) n"
  using hops_ancestor hops_det by blast

lemma hops_acyclic:
  assumes "\<forall>i<length (dense (transform m)). \<exists>n. hops (transform m) (parent m) (parent m ! i) n"
  shows "acyclic (parent_rel m)"
proof (rule acyclicI, rule allI, rule notI)
  fix i assume c: "(i, i) \<in> (parent_rel m)\<^sup>+"
  then obtain y where "(i, y) \<in> parent_rel m" by (meson tranclD)
  then have "i < length (dense (transform m))" by (simp add: parent_rel_def getElementCount_def)
  with assms cycle_no_hops[OF c] show False by blast
qed

section \<open>The two loops of sortTransforms\<close>

lemma orderedTransform_Inr:
  "orderedTransform m js = Some (Inr es) \<Longrightarrow>
   length es = length js \<and> (\<forall>j<length js. entry_at m (js ! j) = Some (Inr (es ! j)))"
proof (induction js arbitrary: es)
  case Nil
  then show ?case by simp
next
  case (Cons i js)
  from Cons.prems obtain x xs where x: "entry_at m i = Some (Inr x)"
    and xs: "orderedTransform m js = Some (Inr xs)" and es: "es = x # xs"
    by (auto split: option.splits sum.splits)
  from Cons.IH[OF xs] have ih: "length xs = length js"
    "\<And>j. j < length js \<Longrightarrow> entry_at m (js ! j) = Some (Inr (xs ! j))" by auto
  show ?case
  proof (intro conjI allI impI)
    show "length es = length (i # js)" using ih(1) es by simp
    fix j assume "j < length (i # js)"
    then show "entry_at m ((i # js) ! j) = Some (Inr (es ! j))"
      using x ih(2) es by (cases j) simp_all
  qed
qed

lemma orderedTransform_total:
  "(\<forall>i\<in>set js. \<exists>e. entry_at m i = Some (Inr e)) \<Longrightarrow> \<exists>es. orderedTransform m js = Some (Inr es)"
  by (induction js) auto

lemma orderedTransform_None:
  "(\<forall>i\<in>set js. entry_at m i = None \<or> (\<exists>e. entry_at m i = Some (Inr e))) \<Longrightarrow>
   \<exists>i\<in>set js. entry_at m i = None \<Longrightarrow> orderedTransform m js = None"
proof (induction js)
  case Nil
  then show ?case by simp
next
  case (Cons i js)
  show ?case
  proof (cases "entry_at m i")
    case None
    then show ?thesis by simp
  next
    case (Some r)
    then obtain e where e: "entry_at m i = Some (Inr e)" using Cons.prems(1) by auto
    then have "\<exists>i\<in>set js. entry_at m i = None" using Cons.prems(2) by auto
    then have "orderedTransform m js = None" using Cons.IH Cons.prems(1) by simp
    then show ?thesis using e by simp
  qed
qed

lemma entry_at_hops:
  assumes "i < length (parent m)" "hops (transform m) (parent m) (parent m ! i) n"
  shows "entry_at m i = Some (Inr \<lparr>t_id = getIdFromIndex (transform m) i, t_parent = parent m ! i, level = n\<rparr>)"
  using assms level_walk_hops[OF assms(2), of 0] by (simp add: entry_at_def)

lemma entry_at_Some:
  assumes inv: "alloc_inv (transform m)"
    and len: "length (dense (transform m)) \<le> length (parent m)"
    and e: "entry_at m i = Some r"
    and i: "i < length (parent m)"
  shows "\<exists>n. hops (transform m) (parent m) (parent m ! i) n \<and>
     r = Inr \<lparr>t_id = getIdFromIndex (transform m) i, t_parent = parent m ! i, level = n\<rparr>"
proof -
  from e i obtain r' where r': "level_walk (transform m) (parent m) (parent m ! i) 0 = Some r'"
    by (auto simp: entry_at_def split: option.splits)
  have "\<forall>h p. getIndexFromId (transform m) h = Some p \<longrightarrow> p < length (parent m)"
    using resolve_bound[OF inv len] by blast
  from level_walk_returns[OF r' this] obtain n where
    n: "hops (transform m) (parent m) (parent m ! i) n" "r' = Inr n" by auto
  then show ?thesis using e entry_at_hops[OF i n(1)] by auto
qed

lemma swap_freeList: "freeList (swap x y a) = freeList a"
  by (simp add: swap_def split: option.splits)

lemma reorder_append:
  "reorder es (xs @ ys) m = (case reorder es xs m of Inl e \<Rightarrow> Inl e | Inr m' \<Rightarrow> reorder es ys m')"
  by (induction xs arbitrary: m) auto

lemma reorder_prefix:
  assumes inv: "alloc_inv (transform m)"
    and lenp: "length (dense (transform m)) \<le> length (parent m)"
    and lene: "length es = length (dense (transform m))"
    and ids: "\<forall>i<length es. is_valid (transform m) (t_id (es ! i))"
    and dist: "distinct (map t_id es)"
  shows "k \<le> length es \<Longrightarrow>
    \<exists>mk. reorder es [0..<k] m = Inr mk \<and> alloc_inv (transform mk) \<and>
      length (dense (transform mk)) = length (dense (transform m)) \<and>
      length (slots (transform mk)) = length (slots (transform m)) \<and>
      freeList (transform mk) = freeList (transform m) \<and>
      length (parent mk) = length (parent m) \<and> world mk = world m \<and>
      hierarchy_changed mk = hierarchy_changed m \<and>
      (\<forall>h. is_valid (transform mk) h = is_valid (transform m) h) \<and>
      (\<forall>h. get (transform mk) h = get (transform m) h) \<and>
      (\<forall>i<k. getIdFromIndex (transform mk) i = t_id (es ! i) \<and> parent mk ! i = t_parent (es ! i))"
proof (induction k)
  case 0
  then show ?case using inv by simp
next
  case (Suc k)
  then have k: "k < length es" by simp
  from Suc obtain mk where mk: "reorder es [0..<k] m = Inr mk"
    and ak: "alloc_inv (transform mk)"
    and ld: "length (dense (transform mk)) = length (dense (transform m))"
    and ls: "length (slots (transform mk)) = length (slots (transform m))"
    and fl: "freeList (transform mk) = freeList (transform m)"
    and lp: "length (parent mk) = length (parent m)"
    and w: "world mk = world m" and hc: "hierarchy_changed mk = hierarchy_changed m"
    and val: "\<And>h. is_valid (transform mk) h = is_valid (transform m) h"
    and gt: "\<And>h. get (transform mk) h = get (transform m) h"
    and pre: "\<And>i. i < k \<Longrightarrow> getIdFromIndex (transform mk) i = t_id (es ! i) \<and> parent mk ! i = t_parent (es ! i)"
    by auto
  let ?x = "getIdFromIndex (transform mk) k"
  let ?y = "t_id (es ! k)"
  let ?a' = "swap ?x ?y (transform mk)"
  let ?m' = "mk\<lparr>transform := ?a', parent := (parent mk)[k := t_parent (es ! k)]\<rparr>"
  have kd: "k < length (dense (transform mk))" using k lene ld by simp
  have X: "getIndexFromId (transform mk) ?x = Some k"
    using getIdFromIndex_resolve[OF ak kd] .
  have "is_valid (transform mk) ?y" using ids k val by simp
  then obtain py where Y: "getIndexFromId (transform mk) ?y = Some py"
    by (simp add: getIndexFromId_def)
  have pyd: "py < length (dense (transform mk))" "getIdFromIndex (transform mk) py = ?y"
    using Y getIndexFromId_Some_iff[OF ak] by auto
  have pyk: "k \<le> py"
  proof (rule ccontr)
    assume "\<not> k \<le> py"
    then have lt: "py < k" by simp
    then have "t_id (es ! py) = t_id (es ! k)" using pre[OF lt] pyd(2) by simp
    then have "map t_id es ! py = map t_id es ! k" using lt k by simp
    moreover have "py < length (map t_id es)" "k < length (map t_id es)" using lt k by simp_all
    ultimately have "py = k" using nth_eq_iff_index_eq[OF dist] by blast
    then show False using lt by simp
  qed
  note sf = swap_facts[OF ak X Y]
  have step: "reorder es [0..<Suc k] m = Inr ?m'"
    using mk k kd lenp ld lp by (simp add: reorder_append)
  have ids': "\<forall>i<Suc k. getIdFromIndex (transform ?m') i = t_id (es ! i) \<and> parent ?m' ! i = t_parent (es ! i)"
  proof (intro allI impI)
    fix i assume i: "i < Suc k"
    have id: "i < length (dense (transform mk))" using i kd by simp
    show "getIdFromIndex (transform ?m') i = t_id (es ! i) \<and> parent ?m' ! i = t_parent (es ! i)"
    proof (cases "i = k")
      case True
      then show ?thesis using sf(4)[OF id] kd lenp ld lp by simp
    next
      case False
      then have lt: "i < k" using i by simp
      then have "i \<noteq> py" using pyk by simp
      then show ?thesis using sf(4)[OF id] False pre[OF lt] by simp
    qed
  qed
  show ?case
    apply (rule exI[of _ ?m'])
    using step alloc_inv_swap[OF ak] sf(1,2,3,5) ld ls lp w hc val gt ids' fl
    by (simp add: swap_freeList)
qed

section \<open>What sortTransforms establishes\<close>

lemma std_sortD:
  "std_sort srt \<Longrightarrow> mset (srt xs) = mset xs \<and> sorted (map level (srt xs))"
  by (auto simp: std_sort_def sorted_wrt_map not_less sorted_wrt_iff_nth_less)

lemma sortTransforms_post:
  assumes inv: "alloc_inv (transform m)"
    and lenp: "length (dense (transform m)) \<le> length (parent m)"
    and srt: "std_sort srt"
    and ac: "forest m"
  shows "\<exists>m'. sortTransforms srt m = Some (Inr m') \<and> alloc_inv (transform m') \<and>
      length (dense (transform m')) = length (dense (transform m)) \<and>
      length (slots (transform m')) = length (slots (transform m)) \<and>
      freeList (transform m') = freeList (transform m) \<and>
      length (parent m') = length (parent m) \<and> world m' = world m \<and>
      hierarchy_changed m' = hierarchy_changed m \<and>
      (\<forall>h. is_valid (transform m') h = is_valid (transform m) h) \<and>
      (\<forall>h. get (transform m') h = get (transform m) h) \<and>
      (\<forall>h. getParent h m' = getParent h m) \<and>
      ordered m'"
proof -
  let ?a = "transform m" and ?ps = "parent m"
  let ?n = "length (dense (transform m))"
  have ex: "\<forall>i\<in>set [0..<?n]. \<exists>e. entry_at m i = Some (Inr e)"
  proof
    fix i assume "i \<in> set [0..<?n]"
    then have i: "i < ?n" by simp
    from hops_exists[OF inv lenp ac[unfolded forest_def] i] obtain k where
      "hops ?a ?ps (?ps ! i) k" by blast
    then show "\<exists>e. entry_at m i = Some (Inr e)" using entry_at_hops[of i m k] i lenp by simp
  qed
  from orderedTransform_total[OF ex] obtain es where es: "orderedTransform m [0..<?n] = Some (Inr es)" by blast
  from orderedTransform_Inr[OF es] have les: "length es = ?n"
    and ent: "\<And>j. j < ?n \<Longrightarrow> entry_at m j = Some (Inr (es ! j))" by auto
  have fld: "hops ?a ?ps (?ps ! j) (level (es ! j)) \<and> t_id (es ! j) = getIdFromIndex ?a j \<and>
      t_parent (es ! j) = ?ps ! j" if j: "j < ?n" for j
  proof -
    have "j < length ?ps" using j lenp by simp
    from entry_at_Some[OF inv lenp ent[OF j] this] show ?thesis by auto
  qed
  define es' where "es' = srt es"
  have ms: "mset es' = mset es" and so: "sorted (map level es')"
    using std_sortD[OF srt, of es] by (simp_all add: es'_def)
  have les': "length es' = ?n" using ms les by (metis size_mset)
  have pick: "\<exists>j<?n. es' ! i = es ! j" if "i < ?n" for i
  proof -
    have "es' ! i \<in> set es'" using that les' by simp
    then have "es' ! i \<in> set es" using ms by (metis set_mset_mset)
    then show ?thesis using les by (auto simp: in_set_conv_nth)
  qed
  have ids_eq: "map t_id es = map (getIdFromIndex ?a) [0..<?n]"
  proof (rule nth_equalityI)
    show "length (map t_id es) = length (map (getIdFromIndex ?a) [0..<?n])" by (simp add: les)
    fix i assume "i < length (map t_id es)"
    then have i: "i < ?n" by (simp add: les)
    then have "t_id (es ! i) = getIdFromIndex ?a i" using fld by blast
    then show "map t_id es ! i = map (getIdFromIndex ?a) [0..<?n] ! i" using i les by simp
  qed
  have "inj_on (getIdFromIndex ?a) {0..<?n}"
  proof (rule inj_onI)
    fix i j assume i: "i \<in> {0..<?n}" and j: "j \<in> {0..<?n}"
      and eq: "getIdFromIndex ?a i = getIdFromIndex ?a j"
    have "getIndexFromId ?a (getIdFromIndex ?a i) = Some i"
      using i by (intro getIdFromIndex_resolve[OF inv]) simp
    moreover have "getIndexFromId ?a (getIdFromIndex ?a j) = Some j"
      using j by (intro getIdFromIndex_resolve[OF inv]) simp
    ultimately show "i = j" unfolding eq by simp
  qed
  then have "distinct (map t_id es)" unfolding ids_eq by (simp add: distinct_map)
  moreover have "mset (map t_id es') = mset (map t_id es)" using ms by simp
  ultimately have dist: "distinct (map t_id es')" by (metis mset_eq_imp_distinct_iff)
  have valid: "\<forall>i<length es'. is_valid ?a (t_id (es' ! i))"
  proof (intro allI impI)
    fix i assume "i < length es'"
    then obtain j where j: "j < ?n" "es' ! i = es ! j" using pick les' by auto
    then have "getIndexFromId ?a (t_id (es' ! i)) = Some j"
      using fld[OF j(1)] getIdFromIndex_resolve[OF inv j(1)] by simp
    then show "is_valid ?a (t_id (es' ! i))" by (simp add: is_valid_resolve)
  qed
  from reorder_prefix[OF inv lenp les' valid dist, of ?n] les'
  obtain m' where m': "reorder es' [0..<?n] m = Inr m'"
    and a': "alloc_inv (transform m')"
    and ld: "length (dense (transform m')) = ?n"
    and ls: "length (slots (transform m')) = length (slots (transform m))"
    and fl: "freeList (transform m') = freeList (transform m)"
    and lp: "length (parent m') = length (parent m)"
    and w: "world m' = world m" and hc: "hierarchy_changed m' = hierarchy_changed m"
    and val: "\<And>h. is_valid (transform m') h = is_valid (transform m) h"
    and gt: "\<And>h. get (transform m') h = get (transform m) h"
    and pre: "\<And>i. i < ?n \<Longrightarrow> getIdFromIndex (transform m') i = t_id (es' ! i) \<and> parent m' ! i = t_parent (es' ! i)"
    by auto
  have st: "sortTransforms srt m = Some (Inr m')"
    using es m' by (simp add: sortTransforms_def getElementCount_def es'_def)
  have orig: "\<exists>j<?n. getIndexFromId ?a h = Some j \<and> parent m' ! i = ?ps ! j \<and>
        hops ?a ?ps (?ps ! j) (level (es' ! i))"
    if h: "getIndexFromId (transform m') h = Some i" for h i
  proof -
    have i: "i < ?n" "getIdFromIndex (transform m') i = h"
      using h getIndexFromId_Some_iff[OF a'] ld by auto
    from pick[OF i(1)] obtain j where j: "j < ?n" "es' ! i = es ! j" by blast
    have "h = getIdFromIndex ?a j" using i(2) pre[OF i(1)] j fld[OF j(1)] by simp
    then have "getIndexFromId ?a h = Some j" using getIdFromIndex_resolve[OF inv j(1)] by simp
    moreover have "parent m' ! i = ?ps ! j" using pre[OF i(1)] j fld[OF j(1)] by simp
    moreover have "hops ?a ?ps (?ps ! j) (level (es' ! i))" using j fld[OF j(1)] by simp
    ultimately show ?thesis using j(1) by blast
  qed
  have res_iff: "getIndexFromId (transform m') h = None \<longleftrightarrow> getIndexFromId ?a h = None" for h
    using val[of h] by (simp add: getIndexFromId_def)
  have gp: "getParent h m' = getParent h m" for h
  proof (cases "getIndexFromId (transform m') h")
    case None
    then show ?thesis using res_iff[of h] by (simp add: getParent_def)
  next
    case (Some i)
    from orig[OF Some] obtain j where j: "j < ?n" "getIndexFromId ?a h = Some j" "parent m' ! i = ?ps ! j"
      by blast
    have "i < ?n" using Some getIndexFromId_Some_iff[OF a'] ld by auto
    then show ?thesis using Some j lenp lp by (simp add: getParent_def)
  qed
  have ord: "ordered m'"
    unfolding ordered_def getElementCount_def ld
  proof (intro allI impI)
    fix i assume i: "i < ?n"
    show "case parent_index m' i of None \<Rightarrow> True | Some p \<Rightarrow> p < i"
    proof (cases "parent_index m' i")
      case None
      then show ?thesis by simp
    next
      case (Some p)
      then have P: "getIndexFromId (transform m') (parent m' ! i) = Some p" by (simp add: parent_index_def)
      from orig[OF P] obtain j' where j': "j' < ?n" "getIndexFromId ?a (parent m' ! i) = Some j'"
        "hops ?a ?ps (?ps ! j') (level (es' ! p))" by blast
      from orig[OF getIdFromIndex_resolve[OF a', of i] ] i ld obtain j where j: "j < ?n"
        "parent m' ! i = ?ps ! j" "hops ?a ?ps (?ps ! j) (level (es' ! i))" by auto
      from j(3) j'(2) obtain k where k: "level (es' ! i) = Suc k" "hops ?a ?ps (?ps ! j') k"
        unfolding j(2)[symmetric] by (auto elim: hops.cases)
      have "k = level (es' ! p)" using hops_det[OF k(2) j'(3)] .
      then have lt: "level (es' ! p) < level (es' ! i)" using k(1) by simp
      have pn: "p < ?n" using P getIndexFromId_Some_iff[OF a'] ld by auto
      have "p < i"
      proof (rule ccontr)
        assume "\<not> p < i"
        then have "i \<le> p" by simp
        then have "map level es' ! i \<le> map level es' ! p"
          using so pn les' by (simp add: sorted_iff_nth_mono del: nth_map)
        then show False using lt i pn les' by simp
      qed
      then show ?thesis using Some by simp
    qed
  qed
  show ?thesis
    using st a' ld ls fl lp w hc val gt gp ord by blast
qed

section \<open>The world-matrix pass\<close>

lemma world_pass_append:
  "world_pass (xs @ ys) m = (case world_pass xs m of Inl e \<Rightarrow> Inl e | Inr m' \<Rightarrow> world_pass ys m')"
  by (induction xs arbitrary: m) (auto split: sum.splits)

lemma world_pass_prefix:
  assumes inv: "alloc_inv (transform m)"
    and lenw: "length (dense (transform m)) \<le> length (world m)"
    and lenp: "length (dense (transform m)) \<le> length (parent m)"
    and ord: "ordered m"
  shows "k \<le> length (dense (transform m)) \<Longrightarrow>
    \<exists>w. world_pass [0..<k] m = Inr (m\<lparr>world := w\<rparr>) \<and> length w = length (world m) \<and>
      (\<forall>i<k. w ! i = (case parent_index m i of
                          None \<Rightarrow> getData (transform m) ! i
                        | Some p \<Rightarrow> getData (transform m) ! i * w ! p))"
proof (induction k)
  case 0
  then show ?case by (auto intro: exI[of _ "world m"])
next
  case (Suc k)
  then have k: "k < length (dense (transform m))" by simp
  from Suc obtain w where w: "world_pass [0..<k] m = Inr (m\<lparr>world := w\<rparr>)"
    and lw: "length w = length (world m)"
    and pre: "\<And>i. i < k \<Longrightarrow> w ! i = (case parent_index m i of
                          None \<Rightarrow> getData (transform m) ! i
                        | Some p \<Rightarrow> getData (transform m) ! i * w ! p)"
    by auto
  have kw: "k < length w" "k < length (parent m)" using k lw lenw lenp by simp_all
  have below: "p < i" if "i < length (dense (transform m))" "parent_index m i = Some p" for i p
    using ord that by (auto simp: ordered_def getElementCount_def split: option.splits)
  define w' where "w' = (case parent_index m k of
        None \<Rightarrow> w[k := getData (transform m) ! k]
      | Some p \<Rightarrow> w[k := getData (transform m) ! k * w ! p])"
  have step: "world_step k (m\<lparr>world := w\<rparr>) = Inr (m\<lparr>world := w'\<rparr>)"
  proof (cases "parent_index m k")
    case None
    then show ?thesis using kw by (simp add: world_step_def w'_def parent_index_def)
  next
    case (Some p)
    then have "p < k" using below[OF k] by simp
    then show ?thesis using kw Some by (simp add: world_step_def w'_def parent_index_def)
  qed
  have lw': "length w' = length (world m)" using lw by (simp add: w'_def split: option.splits)
  have keep: "w' ! i = w ! i" if "i < k" for i
    using that by (simp add: w'_def split: option.splits)
  have "\<forall>i<Suc k. w' ! i = (case parent_index m i of
                          None \<Rightarrow> getData (transform m) ! i
                        | Some p \<Rightarrow> getData (transform m) ! i * w' ! p)"
  proof (intro allI impI)
    fix i assume i: "i < Suc k"
    show "w' ! i = (case parent_index m i of
                          None \<Rightarrow> getData (transform m) ! i
                        | Some p \<Rightarrow> getData (transform m) ! i * w' ! p)"
    proof (cases "i = k")
      case True
      show ?thesis
      proof (cases "parent_index m k")
        case None
        then show ?thesis using True kw by (simp add: w'_def)
      next
        case (Some p)
        then have "p < k" using below[OF k] by simp
        then show ?thesis using True kw Some keep[of p] by (simp add: w'_def)
      qed
    next
      case False
      then have lt: "i < k" using i by simp
      show ?thesis
      proof (cases "parent_index m i")
        case None
        then show ?thesis using pre[OF lt] keep[OF lt] by simp
      next
        case (Some p)
        then have "p < i" using below[of i p] lt k by simp
        then have "p < k" using lt by simp
        then show ?thesis using pre[OF lt] keep[OF lt] keep[of p] Some by simp
      qed
    qed
  qed
  moreover have "world_pass [0..<Suc k] m = Inr (m\<lparr>world := w'\<rparr>)"
    using w step by (simp add: world_pass_append)
  ultimately show ?case using lw' by blast
qed

section \<open>What update establishes\<close>

lemma mgr_inv_lens:
  assumes "mgr_inv m"
  shows "alloc_inv (transform m)"
    and "length (dense (transform m)) \<le> length (parent m)"
    and "length (dense (transform m)) \<le> length (world m)"
  using assms alloc_inv_count[of "transform m"] by (auto simp: mgr_inv_def)

lemma getParent_flag: "getParent h (m\<lparr>hierarchy_changed := b\<rparr>) = getParent h m"
  by (simp add: getParent_def split: option.splits)

lemma getParent_world: "getParent h (m\<lparr>world := w\<rparr>) = getParent h m"
  by (simp add: getParent_def split: option.splits)

lemma ordered_flag: "ordered (m\<lparr>hierarchy_changed := b\<rparr>) = ordered m"
  by (simp add: ordered_def parent_index_def)

lemma ordered_world: "ordered (m\<lparr>world := w\<rparr>) = ordered m"
  by (simp add: ordered_def parent_index_def)

lemma update_post:
  assumes inv: "mgr_inv m" and srt: "std_sort srt" and ac: "forest m"
  shows "\<exists>m'. update srt m = Some (Inr m') \<and> mgr_inv m' \<and> \<not> hierarchy_changed m' \<and> ordered m' \<and>
     (\<forall>h. is_valid (transform m') h = is_valid (transform m) h) \<and>
     (\<forall>h. getTransform h m' = getTransform h m) \<and>
     (\<forall>h. getParent h m' = getParent h m) \<and>
     (\<forall>h t. getTransform h m = Some t \<longrightarrow>
        (\<exists>q. getParent h m = Inr q \<and>
           getWorldMatrix h m' =
             Inr (Some (case getWorldMatrix q m' of Inr (Some wq) \<Rightarrow> t * wq | _ \<Rightarrow> t))))"
proof -
  note l = mgr_inv_lens[OF inv]
  have "\<exists>m1. update srt m = Some (world_pass [0..<length (dense (transform m1))] m1) \<and>
      alloc_inv (transform m1) \<and>
      length (dense (transform m1)) = length (dense (transform m)) \<and>
      length (slots (transform m1)) = length (slots (transform m)) \<and>
      length (parent m1) = length (parent m) \<and> world m1 = world m \<and>
      \<not> hierarchy_changed m1 \<and>
      (\<forall>h. is_valid (transform m1) h = is_valid (transform m) h) \<and>
      (\<forall>h. get (transform m1) h = get (transform m) h) \<and>
      (\<forall>h. getParent h m1 = getParent h m) \<and> ordered m1"
  proof (cases "hierarchy_changed m")
    case True
    from sortTransforms_post[OF l(1) l(2) srt ac] obtain m0 where
      m0: "sortTransforms srt m = Some (Inr m0)" "alloc_inv (transform m0)"
      "length (dense (transform m0)) = length (dense (transform m))"
      "length (slots (transform m0)) = length (slots (transform m))"
      "length (parent m0) = length (parent m)" "world m0 = world m"
      "\<forall>h. is_valid (transform m0) h = is_valid (transform m) h"
      "\<forall>h. get (transform m0) h = get (transform m) h"
      "\<forall>h. getParent h m0 = getParent h m" "ordered m0"
      by blast
    let ?m1 = "m0\<lparr>hierarchy_changed := False\<rparr>"
    have "update srt m = Some (world_pass [0..<length (dense (transform ?m1))] ?m1)"
      using True m0(1) by (simp add: update_def getElementCount_def)
    moreover have "ordered ?m1" using m0(10) by (simp add: ordered_flag)
    moreover have "\<forall>h. getParent h ?m1 = getParent h m" using m0(9) by (simp add: getParent_flag)
    ultimately show ?thesis using m0(2-8) by (intro exI[of _ ?m1]) simp
  next
    case False
    then have "ordered m" using inv by (simp add: mgr_inv_def)
    moreover have "update srt m = Some (world_pass [0..<length (dense (transform m))] m)"
      using False by (simp add: update_def getElementCount_def)
    ultimately show ?thesis using False l(1) by (intro exI[of _ m]) simp
  qed
  then obtain m1 where u: "update srt m = Some (world_pass [0..<length (dense (transform m1))] m1)"
    and a1: "alloc_inv (transform m1)"
    and ld: "length (dense (transform m1)) = length (dense (transform m))"
    and ls: "length (slots (transform m1)) = length (slots (transform m))"
    and lp: "length (parent m1) = length (parent m)" and w1: "world m1 = world m"
    and hc: "\<not> hierarchy_changed m1"
    and val: "\<And>h. is_valid (transform m1) h = is_valid (transform m) h"
    and gt: "\<And>h. get (transform m1) h = get (transform m) h"
    and gp: "\<And>h. getParent h m1 = getParent h m" and ord: "ordered m1"
    by blast
  have lenw: "length (dense (transform m1)) \<le> length (world m1)"
    and lenp: "length (dense (transform m1)) \<le> length (parent m1)"
    using l ld lp w1 by simp_all
  from world_pass_prefix[OF a1 lenw lenp ord, of "length (dense (transform m1))"]
  obtain w where w: "world_pass [0..<length (dense (transform m1))] m1 = Inr (m1\<lparr>world := w\<rparr>)"
    and lw: "length w = length (world m1)"
    and wv: "\<And>i. i < length (dense (transform m1)) \<Longrightarrow> w ! i = (case parent_index m1 i of
                          None \<Rightarrow> getData (transform m1) ! i
                        | Some p \<Rightarrow> getData (transform m1) ! i * w ! p)"
    by auto
  let ?m' = "m1\<lparr>world := w\<rparr>"
  have up: "update srt m = Some (Inr ?m')" using u w by simp
  have inv': "mgr_inv ?m'"
    using inv a1 ls lp lw w1 ord hc by (simp add: mgr_inv_def ordered_world)
  have ord': "ordered ?m'" using ord by (simp add: ordered_world)
  have gp': "getParent h ?m' = getParent h m" for h using gp[of h] by (simp add: getParent_world)
  have gt': "getTransform h ?m' = getTransform h m" for h using gt[of h] by (simp add: getTransform_def)
  have wm: "\<exists>q. getParent h m = Inr q \<and>
           getWorldMatrix h ?m' =
             Inr (Some (case getWorldMatrix q ?m' of Inr (Some wq) \<Rightarrow> t * wq | _ \<Rightarrow> t))"
    if t: "getTransform h m = Some t" for h t
  proof -
    from t gt[of h] obtain i where i: "getIndexFromId (transform m1) h = Some i"
      "t = snd (dense (transform m1) ! i)"
      by (auto simp: getTransform_def get_def split: option.splits)
    have il: "i < length (dense (transform m1))" using i(1) getIndexFromId_Some_iff[OF a1] by simp
    then have il2: "i < length (parent m1)" "i < length w" using lenp lenw lw by simp_all
    let ?q = "parent m1 ! i"
    have "getParent h m1 = Inr ?q" using i(1) il2 by (simp add: getParent_def)
    then have q: "getParent h m = Inr ?q" using gp by simp
    have gw: "getWorldMatrix h ?m' = Inr (Some (w ! i))" using i(1) il2 by (simp add: getWorldMatrix_def)
    have td: "getData (transform m1) ! i = t" using i(2) il by (simp add: getData_def)
    have "w ! i = (case getWorldMatrix ?q ?m' of Inr (Some wq) \<Rightarrow> t * wq | _ \<Rightarrow> t)"
    proof (cases "getIndexFromId (transform m1) ?q")
      case None
      then show ?thesis using wv[OF il] td by (simp add: parent_index_def getWorldMatrix_def)
    next
      case (Some p)
      then have "p < length (dense (transform m1))" using getIndexFromId_Some_iff[OF a1] by simp
      then have "p < length w" using lenw lw by simp
      then show ?thesis using wv[OF il] td Some by (simp add: parent_index_def getWorldMatrix_def)
    qed
    then show ?thesis using q gw by simp
  qed
  show ?thesis
    using up inv' hc ord' val gt' gp' wm by (intro exI[of _ ?m']) simp
qed

section \<open>Cycles\<close>

lemma sorted_level: "sorted_wrt (\<lambda>x y. \<not> level y < level x) xs = sorted (map level xs)"
  by (simp add: sorted_wrt_map not_less)

lemma std_sort_stable_sort: "std_sort stable_sort"
  by (simp add: std_sort_def stable_sort_def sorted_level)

lemma std_sort_reversing_sort: "std_sort reversing_sort"
  by (simp add: std_sort_def reversing_sort_def sorted_level)

lemma ordered_forest: "ordered m \<Longrightarrow> forest m"
proof -
  assume o: "ordered m"
  have "parent_rel m \<subseteq> less_than\<inverse>"
    using o by (auto simp: parent_rel_def ordered_def split: option.splits)
  moreover have "acyclic (less_than\<inverse>)" by (simp add: wf_acyclic acyclic_converse)
  ultimately show ?thesis unfolding forest_def by (rule acyclic_subset[rotated])
qed

lemma walk_diverges:
  assumes inv: "alloc_inv (transform m)"
    and len: "length (dense (transform m)) \<le> length (parent m)"
    and c: "(i, i) \<in> (parent_rel m)\<^sup>+"
  shows "level_walk (transform m) (parent m) (parent m ! i) 0 = None"
proof (cases "level_walk (transform m) (parent m) (parent m ! i) 0")
  case None
  then show ?thesis .
next
  case (Some r)
  have "\<forall>h p. getIndexFromId (transform m) h = Some p \<longrightarrow> p < length (parent m)"
    using resolve_bound[OF inv len] by blast
  from level_walk_returns[OF Some this] cycle_no_hops[OF c] show ?thesis by blast
qed

lemma sortTransforms_diverges:
  assumes inv: "alloc_inv (transform m)"
    and len: "length (dense (transform m)) \<le> length (parent m)"
    and nf: "\<not> forest m"
  shows "\<exists>i<length (dense (transform m)). level_walk (transform m) (parent m) (parent m ! i) 0 = None"
    and "sortTransforms srt m = None"
proof -
  let ?n = "length (dense (transform m))"
  from nf obtain i where c: "(i, i) \<in> (parent_rel m)\<^sup>+" by (auto simp: forest_def acyclic_def)
  then obtain y where "(i, y) \<in> parent_rel m" by (meson tranclD)
  then have i: "i < ?n" by (simp add: parent_rel_def getElementCount_def)
  have w: "level_walk (transform m) (parent m) (parent m ! i) 0 = None"
    using walk_diverges[OF inv len c] .
  then show "\<exists>i<?n. level_walk (transform m) (parent m) (parent m ! i) 0 = None" using i by blast
  have e: "entry_at m i = None" using w i len by (simp add: entry_at_def)
  have "\<forall>j\<in>set [0..<?n]. entry_at m j = None \<or> (\<exists>e. entry_at m j = Some (Inr e))"
  proof
    fix j assume "j \<in> set [0..<?n]"
    then have j: "j < length (parent m)" using len by simp
    show "entry_at m j = None \<or> (\<exists>e. entry_at m j = Some (Inr e))"
      using entry_at_Some[OF inv len _ j] by (cases "entry_at m j") auto
  qed
  moreover have "\<exists>j\<in>set [0..<?n]. entry_at m j = None" using e i by auto
  ultimately have "orderedTransform m [0..<?n] = None" by (rule orderedTransform_None)
  then show "sortTransforms srt m = None" by (simp add: sortTransforms_def getElementCount_def)
qed

lemma update_diverges:
  assumes inv: "mgr_inv m" and nf: "\<not> forest m"
  shows "update srt m = None"
proof -
  note l = mgr_inv_lens[OF inv]
  have "hierarchy_changed m" using inv nf ordered_forest by (auto simp: mgr_inv_def)
  then show ?thesis using sortTransforms_diverges(2)[OF l(1) l(2) nf] by (simp add: update_def)
qed

lemma walk_returns_forest:
  assumes inv: "alloc_inv (transform m)"
    and len: "length (dense (transform m)) \<le> length (parent m)"
    and f: "forest m" and i: "i < length (dense (transform m))"
  shows "\<exists>l. level_walk (transform m) (parent m) (parent m ! i) 0 = Some (Inr l)"
  using hops_exists[OF inv len f[unfolded forest_def] i] level_walk_hops[of "transform m" "parent m" _ _ 0]
  by auto

lemma world_pass_frame:
  "world_pass js m = Inr m' \<Longrightarrow> transform m' = transform m \<and> parent m' = parent m \<and>
     hierarchy_changed m' = hierarchy_changed m"
proof (induction js arbitrary: m)
  case Nil
  then show ?case by simp
next
  case (Cons j js)
  from Cons.prems obtain m1 where s: "world_step j m = Inr m1" and r: "world_pass js m1 = Inr m'"
    by (auto split: sum.splits)
  from s have "transform m1 = transform m \<and> parent m1 = parent m \<and>
     hierarchy_changed m1 = hierarchy_changed m"
    by (auto simp: world_step_def Let_def split: if_splits option.splits)
  then show ?case using Cons.IH[OF r] by simp
qed

lemma ordered_ancestors:
  "(i, a) \<in> (parent_rel m)\<^sup>+ \<Longrightarrow> ordered m \<Longrightarrow> a < i"
proof (induction rule: trancl_induct)
  case (base p)
  then show ?case by (auto simp: parent_rel_def ordered_def split: option.splits)
next
  case (step p q)
  then have "q < p" by (auto simp: parent_rel_def ordered_def split: option.splits)
  then show ?case using step by simp
qed

section \<open>The concrete scenes\<close>

lemma created_handles:
  "\<exists>m1 m2 m3. createTransform (translate 1 0 0) empty_manager = Inr (hA, m1) \<and>
      createTransform (translate 0 1 0) m1 = Inr (hB, m2) \<and>
      createTransform (translate 0 0 1) m2 = Inr (hC, m3)"
  by (simp add: manager_defs handle_defs)

lemma scenes_reached:
  "run srt [CreateTransform (translate 1 0 0), CreateTransform (translate 0 1 0),
      CreateTransform (translate 0 0 1), SetParent hB hA, SetParent hC hB] empty_manager =
     Some (Inr chain_scene)"
  "run srt [CreateTransform (translate 1 0 0), CreateTransform (translate 0 1 0)] empty_manager =
     Some (Inr two_roots)"
  "run srt [CreateTransform (translate 1 0 0), CreateTransform (translate 0 1 0), SetParent hB hA,
      DestroyTransform hA] empty_manager = Some (Inr orphan_scene)"
  "run srt [CreateTransform (translate 1 0 0), SetParent hA hA] empty_manager = Some (Inr cycle_scene)"
  "run srt [CreateTransform (translate 1 0 0), CreateTransform (translate 0 1 0), SetParent hA hB]
      empty_manager = Some (Inr child_first)"
  "run srt [CreateTransform (translate 1 0 0), CreateTransform (translate 0 1 0),
      CreateTransform (translate 0 0 1), SetParent hB hC, DestroyTransform hC, SetParent hA hA]
      empty_manager = Some (Inr cycle_and_orphan)"
  by (simp_all add: scene_defs manager_defs handle_defs)

lemma mgr_inv_chain_scene: "mgr_inv chain_scene"
  by (simp add: mgr_inv_def alloc_inv_def chain_scene_def less_Suc_eq)

lemma mgr_inv_two_roots: "mgr_inv two_roots"
  by (simp add: mgr_inv_def alloc_inv_def two_roots_def less_Suc_eq)

lemma mgr_inv_orphan_scene: "mgr_inv orphan_scene"
  by (simp add: mgr_inv_def alloc_inv_def orphan_scene_def less_Suc_eq)

lemma mgr_inv_cycle_scene: "mgr_inv cycle_scene"
  by (simp add: mgr_inv_def alloc_inv_def cycle_scene_def less_Suc_eq)

lemma mgr_inv_child_first: "mgr_inv child_first"
  by (simp add: mgr_inv_def alloc_inv_def child_first_def less_Suc_eq)

lemma mgr_inv_cycle_and_orphan: "mgr_inv cycle_and_orphan"
  by (simp add: mgr_inv_def alloc_inv_def cycle_and_orphan_def less_Suc_eq)

lemma ordered_chain_scene: "ordered chain_scene"
  by (simp add: ordered_def parent_index_def chain_scene_def manager_defs handle_defs less_Suc_eq)

lemma forest_chain_scene: "forest chain_scene"
  by (rule ordered_forest) (rule ordered_chain_scene)

lemma not_forest_cycle_scene: "\<not> forest cycle_scene"
proof -
  have "(0, 0) \<in> parent_rel cycle_scene"
    by (simp add: parent_rel_def parent_index_def cycle_scene_def manager_defs handle_defs)
  then have "(0, 0) \<in> (parent_rel cycle_scene)\<^sup>+" by (rule r_into_trancl)
  then show ?thesis by (auto simp: forest_def acyclic_def)
qed

lemma not_forest_cycle_and_orphan: "\<not> forest cycle_and_orphan"
proof -
  have "(0, 0) \<in> parent_rel cycle_and_orphan"
    by (simp add: parent_rel_def parent_index_def cycle_and_orphan_def manager_defs handle_defs)
  then have "(0, 0) \<in> (parent_rel cycle_and_orphan)\<^sup>+" by (rule r_into_trancl)
  then show ?thesis by (auto simp: forest_def acyclic_def)
qed

lemma forest_child_first: "forest child_first"
proof -
  have r: "parent_rel child_first = {(0, 1)}"
    by (auto simp: parent_rel_def parent_index_def child_first_def manager_defs handle_defs less_Suc_eq)
  have "acyclic ({} :: (nat \<times> nat) set)" by (simp add: acyclic_def)
  then show ?thesis unfolding forest_def r by (simp add: acyclic_insert)
qed

lemma forest_orphan_scene: "forest orphan_scene"
  by (rule ordered_forest)
    (simp add: ordered_def parent_index_def orphan_scene_def manager_defs handle_defs)

section \<open>Stale handles stay stale\<close>

lemma stale_get: "stale a h \<Longrightarrow> get a h = None"
  by (simp add: stale_def get_def getIndexFromId_def is_valid_def)

lemma gen_update_same:
  "slot_generation v = slot_generation (xs ! k) \<Longrightarrow>
   slot_generation (xs[k := v] ! i) = slot_generation (xs ! i)"
  by (cases "k < length xs"; cases "i = k"; simp add: list_update_beyond)

lemma gen_update_mono:
  "slot_generation (xs ! k) \<le> slot_generation v \<Longrightarrow>
   slot_generation (xs ! i) \<le> slot_generation (xs[k := v] ! i)"
  by (cases "k < length xs"; cases "i = k"; simp add: list_update_beyond)

lemma stale_add: "stale a h \<Longrightarrow> stale (snd (add e a)) h"
  by (auto simp: stale_def add_def Let_def nth_append gen_update_same split: list.splits)

lemma stale_remove:
  assumes st: "stale a h"
  shows "stale (snd (remove x a)) h"
proof (cases "getIndexFromId a x")
  case None
  then show ?thesis using st by (simp add: remove_def)
next
  case (Some p)
  have g: "slot_generation (slots a ! index x) = generation x"
    using Some by (auto simp: getIndexFromId_def is_valid_def split: if_splits)
  define s1 where "s1 = (if p \<noteq> length (dense a) - 1
       then (slots a)[fst (dense a ! (length (dense a) - 1)) :=
               (slots a ! fst (dense a ! (length (dense a) - 1)))\<lparr>position := p\<rparr>]
       else slots a)"
  have s1: "slot_generation (s1 ! i) = slot_generation (slots a ! i)" for i
    by (simp add: s1_def gen_update_same)
  have len: "length s1 = length (slots a)" by (simp add: s1_def)
  have sl: "slots (snd (remove x a)) = s1[index x :=
      (s1 ! index x)\<lparr>slot_generation := slot_generation (s1 ! index x) + 1, occupied := False\<rparr>]"
    using Some by (simp add: remove_def Let_def s1_def)
  have "slot_generation (s1 ! index h) \<le> slot_generation (slots (snd (remove x a)) ! index h)"
    unfolding sl by (rule gen_update_mono) (simp add: s1 g)
  then show ?thesis using st len unfolding s1
    by (simp add: stale_def sl)
qed

lemma stale_swap: "stale a h \<Longrightarrow> stale (swap x y a) h"
  by (auto simp: stale_def swap_def Let_def gen_update_same split: option.splits)

lemma stale_put: "stale a h \<Longrightarrow> stale (put x v a) h"
  by (auto simp: stale_def put_def split: option.splits)

lemma stale_step: "stale a h \<Longrightarrow> stale (freelist_step c a) h"
  by (cases c) (simp_all add: stale_add stale_remove stale_swap stale_put)

lemma stale_fold: "stale a h \<Longrightarrow> stale (fold freelist_step cs a) h"
  by (induction cs arbitrary: a) (simp_all add: stale_step)

lemma remove_stale: "remove h a = (True, a') \<Longrightarrow> stale a' h"
  by (auto simp: stale_def remove_def Let_def getIndexFromId_def is_valid_def gen_update_same
      split: option.splits if_splits)

text \<open>C7. Once \<^verbatim>\<open>remove(h)\<close> has succeeded, \<^verbatim>\<open>get(h)\<close> finds nothing after any
  further calls of \<^verbatim>\<open>add\<close>, \<^verbatim>\<open>remove\<close>, \<^verbatim>\<open>swap\<close> and writes through
  \<^verbatim>\<open>get\<close>, whether or not the slot of \<open>h\<close> has been handed out again: removal
  bumped the slot's generation past that of \<open>h\<close>, and no call lowers a generation.\<close>

theorem remove_invalidates_handle:
  "remove h a = (True, a') \<Longrightarrow> get (fold freelist_step cs a') h = None"
  by (rule stale_get, rule stale_fold, rule remove_stale)

text \<open>An instance: the only element is removed and the next \<^verbatim>\<open>add\<close> is given its
  logical index again, under the next generation.\<close>

theorem remove_invalidates_handle_witness:
  "remove hA one_element = (True, snd (remove hA one_element)) \<and>
   fst (add (translate 0 1 0) (snd (remove hA one_element))) = hD \<and>
   index hD = index hA \<and>
   get (fold freelist_step [Add (translate 0 1 0)] (snd (remove hA one_element))) hA = None"
  using remove_invalidates_handle
    [of hA one_element "snd (remove hA one_element)" "[Add (translate 0 1 0)]"]
  by (simp add: one_element_def manager_defs handle_defs)

section \<open>Calls with an invalid handle\<close>

text \<open>C10. \<^verbatim>\<open>destroyTransform\<close> and \<^verbatim>\<open>setParent\<close> on a handle that does not
  resolve (stale or out of range) return \<^verbatim>\<open>false\<close>, and the manager they leave is the
  one they found with \<^verbatim>\<open>hierarchy_changed_\<close> set: allocator, \<^verbatim>\<open>parent_\<close> and
  \<^verbatim>\<open>world_\<close> are as before. The next \<^verbatim>\<open>update\<close> therefore runs
  \<^verbatim>\<open>sortTransforms\<close>.\<close>

theorem invalid_handle_sets_only_flag:
  "getIndexFromId (transform m) h = None \<Longrightarrow>
   destroyTransform h m = Inr (False, m\<lparr>hierarchy_changed := True\<rparr>) \<and>
   setParent h p m = Inr (False, m\<lparr>hierarchy_changed := True\<rparr>) \<and>
   update srt (m\<lparr>hierarchy_changed := True\<rparr>) =
     (case sortTransforms srt (m\<lparr>hierarchy_changed := True\<rparr>) of
        None \<Rightarrow> None
      | Some (Inl e) \<Rightarrow> Some (Inl e)
      | Some (Inr m') \<Rightarrow>
          Some (world_pass [0..<getElementCount (transform m')]
                  (m'\<lparr>hierarchy_changed := False\<rparr>)))"
  by (simp add: destroyTransform_def setParent_def remove_def update_def
      split: option.splits sum.splits)

text \<open>An instance: the handle of the destroyed A, in a manager that was already flagged and
  in one that is empty.\<close>

theorem invalid_handle_sets_only_flag_witness:
  "getIndexFromId (transform after_destroy) hA = None \<and>
   destroyTransform hA after_destroy = Inr (False, after_destroy) \<and>
   setParent hA hB after_destroy = Inr (False, after_destroy) \<and>
   getIndexFromId (transform (empty_manager :: mat4 transform_manager_t)) hA = None \<and>
   destroyTransform hA (empty_manager :: mat4 transform_manager_t) =
     Inr (False, empty_manager\<lparr>hierarchy_changed := True\<rparr>)"
proof -
  have 1: "getIndexFromId (transform after_destroy) hA = None"
    by (simp add: after_destroy_def manager_defs handle_defs)
  have 2: "getIndexFromId (transform (empty_manager :: mat4 transform_manager_t)) hA = None"
    by (simp add: manager_defs handle_defs)
  have 3: "after_destroy\<lparr>hierarchy_changed := True\<rparr> = after_destroy"
    by (simp add: after_destroy_def)
  show ?thesis
    using invalid_handle_sets_only_flag [OF 1, of hB id]
      invalid_handle_sets_only_flag [OF 2, of hB id] 1 2 3
    by simp
qed

section \<open>setParent and the world matrices\<close>

lemma setParent_world: "setParent h p m = Inr (b, m') \<Longrightarrow> getWorldMatrix x m' = getWorldMatrix x m"
  by (auto simp: setParent_def getWorldMatrix_def split: option.splits if_splits)

lemma setParents_world:
  "\<forall>c\<in>set cs. \<exists>h p. c = SetParent h p \<Longrightarrow> run srt cs m = Some (Inr m') \<Longrightarrow>
   getWorldMatrix x m' = getWorldMatrix x m"
proof (induction cs arbitrary: m)
  case Nil
  then show ?case by simp
next
  case (Cons c cs)
  from Cons.prems(1) obtain h p where c: "c = SetParent h p" by auto
  from Cons.prems(2) c obtain b m1 where s: "setParent h p m = Inr (b, m1)"
    and r: "run srt cs m1 = Some (Inr m')"
    by (cases "setParent h p m") (auto split: sum.splits)
  have "getWorldMatrix x m' = getWorldMatrix x m1" using Cons.IH[OF _ r] Cons.prems(1) by simp
  then show ?case using setParent_world[OF s] by simp
qed

text \<open>C6. A call of \<^verbatim>\<open>setParent\<close> changes no result of \<^verbatim>\<open>getWorldMatrix\<close>: for
  every handle, the matrix (or null) read after the call is the one read before it, and so
  it is after any number of calls of \<^verbatim>\<open>setParent\<close>. \<^verbatim>\<open>world_\<close> is not written
  before the next \<^verbatim>\<open>update\<close>.\<close>

theorem setParent_keeps_world:
  "(setParent h p m = Inr (b, m') \<longrightarrow> getWorldMatrix x m' = getWorldMatrix x m) \<and>
   ((\<forall>c\<in>set cs. \<exists>h p. c = SetParent h p) \<and> run srt cs m = Some (Inr m'') \<longrightarrow>
      getWorldMatrix x m'' = getWorldMatrix x m)"
  using setParent_world setParents_world by blast

text \<open>Instances: one call, and two calls in a row.\<close>

theorem setParent_keeps_world_witness:
  "setParent hC NULL_HANDLE after_create =
     Inr (True, after_create\<lparr>parent := [NULL_HANDLE, NULL_HANDLE, hC]\<rparr>) \<and>
   getWorldMatrix hC (after_create\<lparr>parent := [NULL_HANDLE, NULL_HANDLE, hC]\<rparr>) =
     getWorldMatrix hC after_create \<and>
   run stable_sort [SetParent hC hB, SetParent hD hB] after_create =
     Some (Inr (after_create\<lparr>parent := [hB, NULL_HANDLE, hB]\<rparr>)) \<and>
   getWorldMatrix hC (after_create\<lparr>parent := [hB, NULL_HANDLE, hB]\<rparr>) =
     getWorldMatrix hC after_create"
proof -
  have 1: "setParent hC NULL_HANDLE after_create =
     Inr (True, after_create\<lparr>parent := [NULL_HANDLE, NULL_HANDLE, hC]\<rparr>)"
    by (simp add: after_create_def manager_defs handle_defs)
  have 2: "\<forall>c\<in>set [SetParent hC hB, SetParent hD hB]. \<exists>h p. c = SetParent h p"
    by simp
  have 3: "run stable_sort [SetParent hC hB, SetParent hD hB] after_create =
     Some (Inr (after_create\<lparr>parent := [hB, NULL_HANDLE, hB]\<rparr>))"
    by (simp add: after_create_def manager_defs handle_defs)
  note T = setParent_keeps_world [where h = hC and p = NULL_HANDLE and m = after_create
        and b = True and m' = "after_create\<lparr>parent := [NULL_HANDLE, NULL_HANDLE, hC]\<rparr>"
        and x = hC and cs = "[SetParent hC hB, SetParent hD hB]" and srt = stable_sort
        and m'' = "after_create\<lparr>parent := [hB, NULL_HANDLE, hB]\<rparr>"]
  have a: "getWorldMatrix hC (after_create\<lparr>parent := [NULL_HANDLE, NULL_HANDLE, hC]\<rparr>) =
     getWorldMatrix hC after_create"
    using T[THEN conjunct1] 1 by (rule mp)
  have b: "getWorldMatrix hC (after_create\<lparr>parent := [hB, NULL_HANDLE, hB]\<rparr>) =
     getWorldMatrix hC after_create"
    using T[THEN conjunct2] conjI[OF 2 3] by (rule mp)
  show ?thesis by (intro conjI 1 3 a b)
qed

section \<open>Alignment of the parallel arrays\<close>

text \<open>C1. The claim fails on the code. With A, B, C created, C set under B and A under C,
  and A destroyed, C sits at dense position 0 with \<^verbatim>\<open>parent_[0]\<close> = B. The next
  \<^verbatim>\<open>createTransform\<close> is given the recycled logical index 0 and dense position 2,
  and writes \<^verbatim>\<open>parent_[id.index_]\<close>, that is \<^verbatim>\<open>parent_[0]\<close>: C loses its parent
  and the new transform is left with the parent A had.\<close>

theorem createTransform_writes_parent_at_logical_index:
  "(\<exists>m1 m2 m3. createTransform (translate 1 0 0) empty_manager = Inr (hA, m1) \<and>
      createTransform (translate 0 1 0) m1 = Inr (hB, m2) \<and>
      createTransform (translate 0 0 1) m2 = Inr (hC, m3)) \<and>
   run stable_sort
     [CreateTransform (translate 1 0 0), CreateTransform (translate 0 1 0),
      CreateTransform (translate 0 0 1), SetParent hC hB, SetParent hA hC,
      DestroyTransform hA] empty_manager = Some (Inr after_destroy) \<and>
   getParent hC after_destroy = Inr hB \<and>
   createTransform (translate 5 5 5) after_destroy = Inr (hD, after_create) \<and>
   getIndexFromId (transform after_create) hC = Some 0 \<and>
   getIndexFromId (transform after_create) hD = Some 2 \<and>
   getParent hC after_create = Inr NULL_HANDLE \<and>
   getParent hD after_create = Inr hC"
  by (simp add: after_destroy_def after_create_def manager_defs handle_defs)

section \<open>Order after the sort\<close>

text \<open>C3. In a manager whose parenting relation on valid handles is a forest,
  \<^verbatim>\<open>sortTransforms\<close> returns, and in the layout it leaves every parent handle that
  resolves does so to a position strictly before its child, hence every ancestor of a
  transform is stored strictly before it. \<^verbatim>\<open>update\<close> runs its pass over the same
  allocator and \<^verbatim>\<open>parent_\<close>, so there too \<open>p < i\<close> whenever \<^verbatim>\<open>parent_[i]\<close>
  resolves to \<open>p\<close>.\<close>

theorem sortTransforms_parents_first:
  assumes inv: "mgr_inv m" and srt: "std_sort srt" and f: "forest m"
  shows "\<exists>m'. sortTransforms srt m = Some (Inr m') \<and>
      (\<forall>i<getElementCount (transform m'). \<forall>p. parent_index m' i = Some p \<longrightarrow> p < i) \<and>
      (\<forall>i a. (i, a) \<in> (parent_rel m')\<^sup>+ \<longrightarrow> a < i) \<and>
      (\<exists>m''. update srt m = Some (Inr m'') \<and>
         (hierarchy_changed m \<longrightarrow> transform m'' = transform m' \<and> parent m'' = parent m') \<and>
         (\<forall>i<getElementCount (transform m''). \<forall>p. parent_index m'' i = Some p \<longrightarrow> p < i))"
proof -
  note l = mgr_inv_lens[OF inv]
  from sortTransforms_post[OF l(1) l(2) srt f] obtain m' where
    s: "sortTransforms srt m = Some (Inr m')" and o: "ordered m'" by blast
  from update_post[OF inv srt f] obtain m'' where
    u: "update srt m = Some (Inr m'')" and o'': "ordered m''" by blast
  have 1: "\<forall>i<getElementCount (transform m'). \<forall>p. parent_index m' i = Some p \<longrightarrow> p < i"
    using o by (auto simp: ordered_def split: option.splits)
  have 2: "\<forall>i a. (i, a) \<in> (parent_rel m')\<^sup>+ \<longrightarrow> a < i"
    using ordered_ancestors o by blast
  have 3: "\<forall>i<getElementCount (transform m''). \<forall>p. parent_index m'' i = Some p \<longrightarrow> p < i"
    using o'' by (auto simp: ordered_def split: option.splits)
  have 4: "transform m'' = transform m' \<and> parent m'' = parent m'" if "hierarchy_changed m"
  proof -
    have "world_pass [0..<getElementCount (transform m')] (m'\<lparr>hierarchy_changed := False\<rparr>) = Inr m''"
      using u s that by (simp add: update_def)
    from world_pass_frame[OF this] show ?thesis by simp
  qed
  show ?thesis using s 1 2 u 3 4 by blast
qed

text \<open>An instance: A under B, stored child first.\<close>

theorem sortTransforms_parents_first_witness:
  "mgr_inv child_first \<and> std_sort stable_sort \<and> forest child_first \<and>
   parent_index child_first 0 = Some 1 \<and>
   (\<exists>m'. sortTransforms stable_sort child_first = Some (Inr m') \<and>
      (\<forall>i<getElementCount (transform m'). \<forall>p. parent_index m' i = Some p \<longrightarrow> p < i))"
proof -
  have "parent_index child_first 0 = Some 1"
    by (simp add: parent_index_def child_first_def manager_defs handle_defs)
  then show ?thesis
    using sortTransforms_parents_first [OF mgr_inv_child_first std_sort_stable_sort forest_child_first]
      mgr_inv_child_first std_sort_stable_sort forest_child_first
    by blast
qed

section \<open>Termination\<close>

text \<open>C8. If the parenting relation on valid handles is a forest, the depth walk of
  \<^verbatim>\<open>sortTransforms\<close> returns for every position, and \<^verbatim>\<open>sortTransforms\<close> and
  \<^verbatim>\<open>update\<close> return. If it has a cycle, the walk does not return for some position,
  and neither \<^verbatim>\<open>sortTransforms\<close> nor \<^verbatim>\<open>update\<close> returns.\<close>

theorem depth_walk_returns_iff_forest:
  assumes inv: "mgr_inv m" and srt: "std_sort srt"
  shows "(forest m \<longrightarrow>
           (\<forall>i<getElementCount (transform m).
              \<exists>l. level_walk (transform m) (parent m) (parent m ! i) 0 = Some (Inr l)) \<and>
           (\<exists>m'. sortTransforms srt m = Some (Inr m')) \<and>
           (\<exists>m'. update srt m = Some (Inr m'))) \<and>
         (\<not> forest m \<longrightarrow>
           (\<exists>i<getElementCount (transform m).
              level_walk (transform m) (parent m) (parent m ! i) 0 = None) \<and>
           sortTransforms srt m = None \<and> update srt m = None)"
proof (intro conjI impI)
  note l = mgr_inv_lens[OF inv]
  {
    assume f: "forest m"
    show "\<forall>i<getElementCount (transform m).
              \<exists>l. level_walk (transform m) (parent m) (parent m ! i) 0 = Some (Inr l)"
      using walk_returns_forest[OF l(1) l(2) f] by (simp add: getElementCount_def)
    show "\<exists>m'. sortTransforms srt m = Some (Inr m')"
      using sortTransforms_post[OF l(1) l(2) srt f] by blast
    show "\<exists>m'. update srt m = Some (Inr m')"
      using update_post[OF inv srt f] by blast
  }
  {
    assume nf: "\<not> forest m"
    show "\<exists>i<getElementCount (transform m).
              level_walk (transform m) (parent m) (parent m ! i) 0 = None"
      using sortTransforms_diverges(1)[OF l(1) l(2) nf] by (simp add: getElementCount_def)
    show "sortTransforms srt m = None"
      using sortTransforms_diverges(2)[OF l(1) l(2) nf] .
    show "update srt m = None"
      using update_diverges[OF inv nf] .
  }
qed

text \<open>Instances: the chain A, B, C, and A as its own parent.\<close>

theorem depth_walk_returns_iff_forest_witness:
  "mgr_inv chain_scene \<and> std_sort stable_sort \<and> forest chain_scene \<and>
   (\<exists>m'. update stable_sort chain_scene = Some (Inr m')) \<and>
   mgr_inv cycle_scene \<and> \<not> forest cycle_scene \<and>
   level_walk (transform cycle_scene) (parent cycle_scene) (parent cycle_scene ! 0) 0 = None \<and>
   sortTransforms stable_sort cycle_scene = None \<and> update stable_sort cycle_scene = None"
proof -
  have "getElementCount (transform cycle_scene) = 1"
    by (simp add: cycle_scene_def getElementCount_def)
  then show ?thesis
    using depth_walk_returns_iff_forest [OF mgr_inv_chain_scene std_sort_stable_sort]
      depth_walk_returns_iff_forest [OF mgr_inv_cycle_scene std_sort_stable_sort]
      mgr_inv_chain_scene mgr_inv_cycle_scene std_sort_stable_sort forest_chain_scene
      not_forest_cycle_scene
    by auto
qed

section \<open>World matrices after update\<close>

lemma run_append:
  "run srt (xs @ ys) m =
     (case run srt xs m of None \<Rightarrow> None | Some (Inl e) \<Rightarrow> Some (Inl e) | Some (Inr m') \<Rightarrow> run srt ys m')"
  by (induction xs arbitrary: m) (auto split: option.splits sum.splits)

lemma update_returns_forest:
  "mgr_inv m \<Longrightarrow> update srt m = Some r \<Longrightarrow> forest m"
  using update_diverges by fastforce

lemma chain_scene_world:
  assumes srt: "std_sort srt"
  shows "\<exists>m'. update srt chain_scene = Some (Inr m') \<and>
     getWorldMatrix hA m' = Inr (Some (translate 1 0 0)) \<and>
     getWorldMatrix hB m' = Inr (Some (translate 0 1 0 * translate 1 0 0)) \<and>
     getWorldMatrix hC m' = Inr (Some (translate 0 0 1 * (translate 0 1 0 * translate 1 0 0)))"
proof -
  from update_post[OF mgr_inv_chain_scene srt forest_chain_scene] obtain m' where
    u: "update srt chain_scene = Some (Inr m')"
    and v: "\<And>h. is_valid (transform m') h = is_valid (transform chain_scene) h"
    and w: "\<And>h t. getTransform h chain_scene = Some t \<Longrightarrow>
        (\<exists>q. getParent h chain_scene = Inr q \<and>
           getWorldMatrix h m' =
             Inr (Some (case getWorldMatrix q m' of Inr (Some wq) \<Rightarrow> t * wq | _ \<Rightarrow> t)))"
    by blast
  have n: "getWorldMatrix NULL_HANDLE m' = Inr None"
    using v[of NULL_HANDLE]
    by (simp add: getWorldMatrix_def getIndexFromId_def is_valid_def chain_scene_def NULL_HANDLE_def)
  have tA: "getTransform hA chain_scene = Some (translate 1 0 0)"
    and tB: "getTransform hB chain_scene = Some (translate 0 1 0)"
    and tC: "getTransform hC chain_scene = Some (translate 0 0 1)"
    and pA: "getParent hA chain_scene = Inr NULL_HANDLE"
    and pB: "getParent hB chain_scene = Inr hA"
    and pC: "getParent hC chain_scene = Inr hB"
    by (simp_all add: chain_scene_def manager_defs hA_def hB_def hC_def)
  have a: "getWorldMatrix hA m' = Inr (Some (translate 1 0 0))"
    using w[OF tA] pA n by simp
  have b: "getWorldMatrix hB m' = Inr (Some (translate 0 1 0 * translate 1 0 0))"
    using w[OF tB] pB a by simp
  have c: "getWorldMatrix hC m' = Inr (Some (translate 0 0 1 * (translate 0 1 0 * translate 1 0 0)))"
    using w[OF tC] pC b by simp
  show ?thesis using u a b c by blast
qed

lemma translate_assoc:
  "translate 0 0 1 * (translate 0 1 0 * translate 1 0 0) = translate 0 0 1 * translate 0 1 0 * translate 1 0 0"
  by (simp add: translate_def mat_mul_def)

text \<open>C2. On an empty manager, create A with local matrix \<open>translate 1 0 0\<close>, B with
  \<open>translate 0 1 0\<close> and C with \<open>translate 0 0 1\<close>, set B under A and C under B, and
  call \<^verbatim>\<open>update\<close>: the calls return, \<^verbatim>\<open>getWorldMatrix(C)\<close> is
  \<open>translate 0 0 1 * translate 0 1 0 * translate 1 0 0\<close> and \<^verbatim>\<open>getWorldMatrix(A)\<close> is
  \<open>translate 1 0 0\<close>. In general, in a manager that satisfies its invariant,
  \<^verbatim>\<open>update\<close> returns when the parenting relation is a forest, and after it the world
  matrix of every transform is its local matrix if its parent handle does not resolve, and
  its local matrix times the world matrix of its parent if it does; local matrices and
  parents are as before the call.\<close>

theorem chain_world_matrices:
  assumes srt: "std_sort srt"
  shows "(\<exists>m1 m2 m3. createTransform (translate 1 0 0) empty_manager = Inr (hA, m1) \<and>
            createTransform (translate 0 1 0) m1 = Inr (hB, m2) \<and>
            createTransform (translate 0 0 1) m2 = Inr (hC, m3)) \<and>
         (\<exists>m'. run srt [CreateTransform (translate 1 0 0), CreateTransform (translate 0 1 0),
                  CreateTransform (translate 0 0 1), SetParent hB hA, SetParent hC hB, Update]
             empty_manager = Some (Inr m') \<and>
           getWorldMatrix hC m' =
             Inr (Some (translate 0 0 1 * translate 0 1 0 * translate 1 0 0)) \<and>
           getWorldMatrix hA m' = Inr (Some (translate 1 0 0))) \<and>
         (\<forall>m. mgr_inv m \<longrightarrow>
            (forest m \<longrightarrow> (\<exists>m'. update srt m = Some (Inr m'))) \<and>
            (\<forall>m' h t. update srt m = Some (Inr m') \<and> getTransform h m = Some t \<longrightarrow>
               getTransform h m' = Some t \<and>
               (\<exists>q. getParent h m = Inr q \<and> getParent h m' = Inr q \<and>
                  getWorldMatrix h m' =
                    Inr (Some (case getWorldMatrix q m' of
                                 Inr (Some wq) \<Rightarrow> t * wq
                               | _ \<Rightarrow> t)))))"
proof (intro conjI allI impI)
  show "\<exists>m1 m2 m3. createTransform (translate 1 0 0) empty_manager = Inr (hA, m1) \<and>
            createTransform (translate 0 1 0) m1 = Inr (hB, m2) \<and>
            createTransform (translate 0 0 1) m2 = Inr (hC, m3)"
    by (rule created_handles)
next
  from chain_scene_world[OF srt] obtain m' where
    u: "update srt chain_scene = Some (Inr m')"
    and a: "getWorldMatrix hA m' = Inr (Some (translate 1 0 0))"
    and c: "getWorldMatrix hC m' = Inr (Some (translate 0 0 1 * (translate 0 1 0 * translate 1 0 0)))"
    by blast
  have "run srt ([CreateTransform (translate 1 0 0), CreateTransform (translate 0 1 0),
                  CreateTransform (translate 0 0 1), SetParent hB hA, SetParent hC hB] @ [Update])
             empty_manager = Some (Inr m')"
    unfolding run_append scenes_reached(1) using u by simp
  then show "\<exists>m'. run srt [CreateTransform (translate 1 0 0), CreateTransform (translate 0 1 0),
                  CreateTransform (translate 0 0 1), SetParent hB hA, SetParent hC hB, Update]
             empty_manager = Some (Inr m') \<and>
           getWorldMatrix hC m' =
             Inr (Some (translate 0 0 1 * translate 0 1 0 * translate 1 0 0)) \<and>
           getWorldMatrix hA m' = Inr (Some (translate 1 0 0))"
    using a c translate_assoc by auto
next
  fix m :: "'a::times transform_manager_t"
  assume inv: "mgr_inv m"
  {
    assume "forest m"
    from update_post[OF inv srt this] show "\<exists>m'. update srt m = Some (Inr m')" by blast
  }
  fix m' h t
  assume h: "update srt m = Some (Inr m') \<and> getTransform h m = Some t"
  then have f: "forest m" using update_returns_forest[OF inv] by blast
  from update_post[OF inv srt f] h have
    gt: "\<And>h. getTransform h m' = getTransform h m"
    and gp: "\<And>h. getParent h m' = getParent h m"
    and w: "\<exists>q. getParent h m = Inr q \<and>
           getWorldMatrix h m' =
             Inr (Some (case getWorldMatrix q m' of Inr (Some wq) \<Rightarrow> t * wq | _ \<Rightarrow> t))"
    by auto
  show "getTransform h m' = Some t" using gt h by simp
  show "\<exists>q. getParent h m = Inr q \<and> getParent h m' = Inr q \<and>
                  getWorldMatrix h m' =
                    Inr (Some (case getWorldMatrix q m' of
                                 Inr (Some wq) \<Rightarrow> t * wq
                               | _ \<Rightarrow> t))"
    using w gp by auto
qed


text \<open>An instance, with insertion sort for \<^verbatim>\<open>std::sort\<close>; the product is the
  translation by (1, 1, 1).\<close>

theorem chain_world_matrices_witness:
  "std_sort stable_sort \<and>
   translate 0 0 1 * translate 0 1 0 * translate 1 0 0 = translate 1 1 1 \<and>
   (\<exists>m'. run stable_sort
            [CreateTransform (translate 1 0 0), CreateTransform (translate 0 1 0),
             CreateTransform (translate 0 0 1), SetParent hB hA, SetParent hC hB, Update]
            empty_manager = Some (Inr m') \<and>
         getWorldMatrix hC m' = Inr (Some (translate 1 1 1)) \<and>
         getWorldMatrix hA m' = Inr (Some (translate 1 0 0))) \<and>
   mgr_inv child_first \<and> forest child_first \<and>
   (\<exists>m'. update stable_sort child_first = Some (Inr m'))"
proof -
  have e: "translate 0 0 1 * translate 0 1 0 * translate 1 0 0 = translate 1 1 1"
    by (simp add: translate_def mat_mul_def)
  show ?thesis
    using chain_world_matrices [OF std_sort_stable_sort] std_sort_stable_sort
      mgr_inv_child_first forest_child_first
    unfolding e by blast
qed

section \<open>A parent that was destroyed\<close>

text \<open>C5, as stated, fails where the manager also holds a cycle: B is under the destroyed
  C, A is its own parent, and \<^verbatim>\<open>update\<close> does not return.\<close>

theorem stale_parent_update_diverges:
  "run stable_sort
     [CreateTransform (translate 1 0 0), CreateTransform (translate 0 1 0),
      CreateTransform (translate 0 0 1), SetParent hB hC, DestroyTransform hC, SetParent hA hA]
     empty_manager = Some (Inr cycle_and_orphan) \<and>
   getParent hB cycle_and_orphan = Inr hC \<and>
   stale (transform cycle_and_orphan) hC \<and>
   update stable_sort cycle_and_orphan = None"
proof -
  have "getParent hB cycle_and_orphan = Inr hC \<and> stale (transform cycle_and_orphan) hC"
    by (simp add: cycle_and_orphan_def stale_def manager_defs handle_defs)
  then show ?thesis
    using scenes_reached(6) update_diverges[OF mgr_inv_cycle_and_orphan not_forest_cycle_and_orphan]
    by simp
qed

text \<open>C5, amended. In a manager whose parenting relation on valid handles is a forest, for
  every transform X whose parent handle is stale, \<^verbatim>\<open>update\<close> returns without error and
  afterwards \<^verbatim>\<open>getWorldMatrix(X)\<close> is the local matrix of X.\<close>

theorem stale_parent_is_root:
  assumes inv: "mgr_inv m" and srt: "std_sort srt" and f: "forest m"
    and t: "getTransform x m = Some t" and q: "getParent x m = Inr q"
    and st: "stale (transform m) q"
  shows "\<exists>m'. update srt m = Some (Inr m') \<and> getTransform x m' = Some t \<and>
           getWorldMatrix x m' = Inr (Some t)"
proof -
  from update_post[OF inv srt f] obtain m' where
    u: "update srt m = Some (Inr m')"
    and v: "\<And>h. is_valid (transform m') h = is_valid (transform m) h"
    and gt: "\<And>h. getTransform h m' = getTransform h m"
    and w: "\<And>h t. getTransform h m = Some t \<Longrightarrow>
        (\<exists>q. getParent h m = Inr q \<and>
           getWorldMatrix h m' =
             Inr (Some (case getWorldMatrix q m' of Inr (Some wq) \<Rightarrow> t * wq | _ \<Rightarrow> t)))"
    by blast
  have "\<not> is_valid (transform m) q" using st by (simp add: stale_def is_valid_def)
  then have "getWorldMatrix q m' = Inr None"
    using v[of q] by (simp add: getWorldMatrix_def getIndexFromId_def)
  then have "getWorldMatrix x m' = Inr (Some t)" using w[OF t] q by auto
  then show ?thesis using u gt[of x] t by simp
qed

text \<open>An instance: B under A, and A destroyed.\<close>

theorem stale_parent_is_root_witness:
  "run stable_sort
     [CreateTransform (translate 1 0 0), CreateTransform (translate 0 1 0), SetParent hB hA,
      DestroyTransform hA] empty_manager = Some (Inr orphan_scene) \<and>
   mgr_inv orphan_scene \<and> std_sort stable_sort \<and> forest orphan_scene \<and>
   getTransform hB orphan_scene = Some (translate 0 1 0) \<and>
   getParent hB orphan_scene = Inr hA \<and> stale (transform orphan_scene) hA \<and>
   (\<exists>m'. update stable_sort orphan_scene = Some (Inr m') \<and>
      getTransform hB m' = Some (translate 0 1 0) \<and>
      getWorldMatrix hB m' = Inr (Some (translate 0 1 0)))"
proof -
  have 1: "getTransform hB orphan_scene = Some (translate 0 1 0)"
    and 2: "getParent hB orphan_scene = Inr hA"
    and 3: "stale (transform orphan_scene) hA"
    by (simp_all add: orphan_scene_def stale_def manager_defs handle_defs)
  show ?thesis
    using stale_parent_is_root
      [OF mgr_inv_orphan_scene std_sort_stable_sort forest_orphan_scene 1 2 3]
      scenes_reached(3) mgr_inv_orphan_scene std_sort_stable_sort forest_orphan_scene 1 2 3
    by simp
qed

section \<open>The invariant is kept\<close>

lemma alloc_inv_remove:
  assumes inv: "alloc_inv a"
  shows "alloc_inv (snd (remove h a))"
proof (cases "getIndexFromId a h")
  case None
  then show ?thesis using inv by (simp add: remove_def)
next
  case (Some p)
  let ?n = "length (dense a)"
  let ?lst = "?n - 1"
  let ?moved = "fst (dense a ! ?lst)"
  let ?a' = "snd (remove h a)"
  have vh: "index h < length (slots a)" "occupied (slots a ! index h)"
    "position (slots a ! index h) = p" "slot_generation (slots a ! index h) = generation h"
    using Some by (auto simp: getIndexFromId_def is_valid_def split: if_splits)
  have p: "p < ?n" "fst (dense a ! p) = index h"
    using alloc_inv_slot[OF inv vh(1) vh(2)] vh(3) by auto
  then have lst: "?lst < ?n" by simp
  have mv: "?moved < length (slots a)" "occupied (slots a ! ?moved)" "position (slots a ! ?moved) = ?lst"
    using alloc_inv_dense[OF inv lst] by auto
  have mh: "?moved = index h \<longleftrightarrow> p = ?lst"
    using mv vh p by auto
  define s1 where "s1 = (if p \<noteq> ?lst then (slots a)[?moved := (slots a ! ?moved)\<lparr>position := p\<rparr>] else slots a)"
  have d': "dense ?a' = butlast (swap_at p ?lst (dense a))"
    and s': "slots ?a' = s1[index h := (s1 ! index h)\<lparr>slot_generation := slot_generation (s1 ! index h) + 1, occupied := False\<rparr>]"
    and f': "freeList ?a' = index h # freeList a"
    using Some by (simp_all add: remove_def Let_def s1_def)
  have ld: "length (dense ?a') = ?n - 1" by (simp add: d' swap_at_def)
  have ls1: "length s1 = length (slots a)" by (simp add: s1_def)
  have ls: "length (slots ?a') = length (slots a)" by (simp add: s' ls1)
  have dn: "dense ?a' ! i = (if i = p then dense a ! ?lst else dense a ! i)" if "i < ?n - 1" for i
    using that p by (simp add: d' swap_at_def nth_butlast nth_list_update)
  have sl_h: "\<not> occupied (slots ?a' ! index h)" using vh(1) by (simp add: s' ls1)
  have sl_m: "slots ?a' ! ?moved = (slots a ! ?moved)\<lparr>position := p\<rparr>" if "p \<noteq> ?lst"
    using that mh mv(1) by (simp add: s' s1_def)
  have sl_o: "slots ?a' ! k = slots a ! k" if "k \<noteq> index h" "k \<noteq> ?moved" for k
    using that by (simp add: s' s1_def)
  show ?thesis
    unfolding alloc_inv_def
  proof (intro conjI allI impI ballI)
    show "length (dense ?a') + length (freeList ?a') = length (slots ?a')"
      using alloc_inv_count[OF inv] p(1) by (simp add: ld ls f')
  next
    fix i assume "i < length (dense ?a')"
    then have i: "i < ?n - 1" by (simp add: ld)
    then have i': "i < ?n" by simp
    have a: "fst (dense a ! i) < length (slots a)" "occupied (slots a ! fst (dense a ! i))"
        "position (slots a ! fst (dense a ! i)) = i"
      using alloc_inv_dense[OF inv i'] by auto
    have "fst (dense ?a' ! i) < length (slots ?a') \<and> occupied (slots ?a' ! fst (dense ?a' ! i)) \<and>
        position (slots ?a' ! fst (dense ?a' ! i)) = i"
    proof (cases "i = p")
      case True
      then have pl: "p \<noteq> ?lst" using i by simp
      have "fst (dense ?a' ! i) = ?moved" using dn[OF i] True by simp
      then show ?thesis using sl_m[OF pl] mv True by (simp add: ls)
    next
      case False
      have "fst (dense ?a' ! i) = fst (dense a ! i)" using dn[OF i] False by simp
      moreover have "fst (dense a ! i) \<noteq> index h" using a(3) vh(3) False by auto
      moreover have "fst (dense a ! i) \<noteq> ?moved" using a(3) mv(3) i by auto
      ultimately show ?thesis using sl_o a by (simp add: ls)
    qed
    then show "fst (dense ?a' ! i) < length (slots ?a')" "occupied (slots ?a' ! fst (dense ?a' ! i))"
        "position (slots ?a' ! fst (dense ?a' ! i)) = i"
      by simp_all
  next
    fix k assume "k < length (slots ?a')" and o: "occupied (slots ?a' ! k)"
    then have k: "k < length (slots a)" by (simp add: ls)
    have kh: "k \<noteq> index h" using o sl_h by auto
    have "position (slots ?a' ! k) < length (dense ?a') \<and> fst (dense ?a' ! position (slots ?a' ! k)) = k"
    proof (cases "k = ?moved")
      case True
      then have pl: "p \<noteq> ?lst" using kh mh by simp
      then have pn: "p < ?n - 1" using p(1) by simp
      show ?thesis using True sl_m[OF pl] dn[OF pn] pn by (simp add: ld)
    next
      case False
      then have e: "slots ?a' ! k = slots a ! k" using sl_o kh by simp
      then have ok: "occupied (slots a ! k)" using o by simp
      have b: "position (slots a ! k) < ?n" "fst (dense a ! position (slots a ! k)) = k"
        using alloc_inv_slot[OF inv k ok] by auto
      have "position (slots a ! k) \<noteq> ?lst" using b(2) False by auto
      then have q: "position (slots a ! k) < ?n - 1" using b(1) by simp
      have "position (slots a ! k) \<noteq> p" using b(2) p(2) kh by auto
      then show ?thesis using e dn[OF q] q b(2) by (simp add: ld)
    qed
    then show "position (slots ?a' ! k) < length (dense ?a')"
      "fst (dense ?a' ! position (slots ?a' ! k)) = k" by simp_all
  next
    fix k assume "k \<in> set (freeList ?a')"
    then consider "k = index h" | "k \<in> set (freeList a)" by (auto simp: f')
    then have "k < length (slots ?a') \<and> \<not> occupied (slots ?a' ! k)"
    proof cases
      case 1
      then show ?thesis using vh(1) sl_h by (simp add: ls)
    next
      case 2
      then have fk: "k < length (slots a)" "\<not> occupied (slots a ! k)"
        using alloc_inv_free[OF inv] by auto
      then have "k \<noteq> index h" "k \<noteq> ?moved" using vh(2) mv(2) by auto
      then show ?thesis using sl_o fk by (simp add: ls)
    qed
    then show "k < length (slots ?a')" "\<not> occupied (slots ?a' ! k)" by simp_all
  next
    have "index h \<notin> set (freeList a)" using alloc_inv_free[OF inv] vh(2) by blast
    then show "distinct (freeList ?a')" using alloc_inv_distinct[OF inv] by (simp add: f')
  qed
qed

lemma mgr_inv_empty: "mgr_inv empty_manager"
  by (simp add: mgr_inv_def alloc_inv_def empty_manager_def empty_freelist_def ordered_def
      getElementCount_def)

lemma add_slots_length:
  "alloc_inv a \<Longrightarrow>
   (freeList a = [] \<longrightarrow> index (fst (add e a)) = length (slots a) \<and>
      length (slots (snd (add e a))) = length (slots a) + 1) \<and>
   (freeList a \<noteq> [] \<longrightarrow> index (fst (add e a)) < length (slots a) \<and>
      length (slots (snd (add e a))) = length (slots a))"
  using alloc_inv_free[of a] by (auto simp: add_def Let_def split: list.splits)

lemma createTransform_total:
  assumes inv: "mgr_inv m"
  shows "\<exists>h m'. createTransform t m = Inr (h, m') \<and> mgr_inv m'"
proof -
  have a: "alloc_inv (transform m)" and lp: "length (parent m) = length (slots (transform m))"
    and lw: "length (world m) = length (parent m)"
    using inv by (simp_all add: mgr_inv_def)
  obtain h a' where ad: "add t (transform m) = (h, a')" by (cases "add t (transform m)")
  have a': "alloc_inv a'" using alloc_inv_add[OF a, of t] ad by simp
  note sl = add_slots_length[OF a, of t, unfolded ad fst_conv snd_conv]
  show ?thesis
  proof (cases "freeList (transform m) = []")
    case True
    then have "index h = length (parent m)" "length (slots a') = length (parent m) + 1"
      using sl lp by simp_all
    then show ?thesis using a' lw ad
      by (simp add: createTransform_def resize_def mgr_inv_def)
  next
    case False
    then have "index h < length (parent m)" "length (slots a') = length (parent m)"
      using sl lp by simp_all
    then show ?thesis using a' lw ad
      by (simp add: createTransform_def mgr_inv_def)
  qed
qed

lemma remove_slots_length: "length (slots (snd (remove h a))) = length (slots a)"
  by (simp add: remove_def Let_def split: option.splits)

lemma remove_result: "fst (remove h a) = (getIndexFromId a h \<noteq> None)"
  by (simp add: remove_def Let_def split: option.splits)

lemma destroyTransform_total:
  assumes inv: "mgr_inv m"
  shows "\<exists>b m'. destroyTransform h m = Inr (b, m') \<and> mgr_inv m' \<and>
           b = (getIndexFromId (transform m) h \<noteq> None)"
proof -
  note l = mgr_inv_lens[OF inv]
  have lp: "length (parent m) = length (slots (transform m))"
    and lw: "length (world m) = length (parent m)"
    using inv by (simp_all add: mgr_inv_def)
  obtain b a' where rm: "remove h (transform m) = (b, a')" by (cases "remove h (transform m)")
  have a': "alloc_inv a'" using alloc_inv_remove[OF l(1), of h] rm by simp
  have ls: "length (slots a') = length (slots (transform m))"
    using remove_slots_length[of h "transform m"] rm by simp
  have b: "b = (getIndexFromId (transform m) h \<noteq> None)"
    using remove_result[of h "transform m"] rm by simp
  let ?last = "(getElementCount (transform m) + 4294967296 - 1) mod 4294967296"
  show ?thesis
  proof (cases "getIndexFromId (transform m) h")
    case None
    then show ?thesis using rm a' ls lp lw b by (auto simp: destroyTransform_def mgr_inv_def)
  next
    case (Some idx)
    then have idx: "idx < length (dense (transform m))"
      using getIndexFromId_Some_iff[OF l(1)] by simp
    then obtain k where k: "length (dense (transform m)) = Suc k"
      by (cases "length (dense (transform m))") auto
    have "Suc k + 4294967296 - 1 = 4294967296 + k" by simp
    then have "?last = (4294967296 + k) mod 4294967296" by (simp only: getElementCount_def k)
    also have "\<dots> = k mod 4294967296" by (simp only: mod_add_self1)
    also have "\<dots> \<le> k" by (rule mod_less_eq_dividend)
    finally have "?last < length (dense (transform m))" using k by simp
    then have last: "?last < length (parent m)" "?last < length (world m)"
      using l(2) l(3) by simp_all
    have idx': "idx < length (parent m)" "idx < length (world m)" using idx l(2) l(3) by simp_all
    show ?thesis
      using Some rm a' ls lp lw b last idx'
      by (auto simp: destroyTransform_def mgr_inv_def swap_at_def Let_def)
  qed
qed

lemma getIndexFromId_put: "getIndexFromId (put h v a) x = getIndexFromId a x"
  by (simp add: put_def getIndexFromId_def is_valid_def split: option.splits)

lemma setTransform_total:
  assumes inv: "mgr_inv m"
  shows "mgr_inv (snd (setTransform h t m)) \<and>
         fst (setTransform h t m) = (getIndexFromId (transform m) h \<noteq> None)"
proof (cases "getIndexFromId (transform m) h")
  case None
  then show ?thesis using inv by (simp add: setTransform_def get_def)
next
  case (Some p)
  have "length (dense (put h t (transform m))) = length (dense (transform m))"
    "slots (put h t (transform m)) = slots (transform m)"
    by (simp_all add: put_def split: option.splits)
  moreover have "ordered (m\<lparr>transform := put h t (transform m)\<rparr>) = ordered m"
    using calculation(1) by (simp add: ordered_def parent_index_def getIndexFromId_put getElementCount_def)
  ultimately show ?thesis using inv Some alloc_inv_put[of "transform m" h t]
    by (simp add: setTransform_def get_def mgr_inv_def)
qed

lemma setParent_total:
  assumes inv: "mgr_inv m"
  shows "\<exists>b m'. setParent h p m = Inr (b, m') \<and> mgr_inv m' \<and>
           b = (getIndexFromId (transform m) h \<noteq> None)"
proof (cases "getIndexFromId (transform m) h")
  case None
  then show ?thesis using inv by (auto simp: setParent_def mgr_inv_def)
next
  case (Some idx)
  note l = mgr_inv_lens[OF inv]
  have "idx < length (parent m)" using Some getIndexFromId_Some_iff[OF l(1)] l(2) by simp
  then show ?thesis using Some inv by (auto simp: setParent_def mgr_inv_def)
qed

lemma getParent_total:
  assumes inv: "mgr_inv m"
  shows "(\<exists>q. getParent h m = Inr q) \<and>
         (getIndexFromId (transform m) h = None \<longrightarrow> getParent h m = Inr NULL_HANDLE)"
proof (cases "getIndexFromId (transform m) h")
  case None
  then show ?thesis by (simp add: getParent_def)
next
  case (Some idx)
  note l = mgr_inv_lens[OF inv]
  have "idx < length (parent m)" using Some getIndexFromId_Some_iff[OF l(1)] l(2) by simp
  then show ?thesis using Some by (simp add: getParent_def)
qed

lemma getWorldMatrix_total:
  assumes inv: "mgr_inv m"
  shows "(\<exists>w. getWorldMatrix h m = Inr w) \<and>
         (getIndexFromId (transform m) h = None \<longrightarrow> getWorldMatrix h m = Inr None)"
proof (cases "getIndexFromId (transform m) h")
  case None
  then show ?thesis by (simp add: getWorldMatrix_def)
next
  case (Some idx)
  note l = mgr_inv_lens[OF inv]
  have "idx < length (world m)" using Some getIndexFromId_Some_iff[OF l(1)] l(3) by simp
  then show ?thesis using Some by (simp add: getWorldMatrix_def)
qed

section \<open>Totality\<close>

lemma update_inv:
  assumes srt: "std_sort srt" and inv: "mgr_inv m" and u: "update srt m = Some r"
  shows "\<exists>m'. r = Inr m' \<and> mgr_inv m'"
proof -
  have "forest m" using update_diverges[OF inv] u by fastforce
  from update_post[OF inv srt this] u show ?thesis by auto
qed

lemma call_step_inv:
  assumes srt: "std_sort srt" and inv: "mgr_inv m" and c: "call_step srt c m = Some r"
  shows "\<exists>m'. r = Inr m' \<and> mgr_inv m'"
proof (cases c)
  case (CreateTransform t)
  then show ?thesis using c createTransform_total[OF inv, of t] by auto
next
  case (DestroyTransform h)
  then show ?thesis using c destroyTransform_total[OF inv, of h] by auto
next
  case (SetTransform h t)
  then show ?thesis using c setTransform_total[OF inv, of h t] by auto
next
  case (SetParent h p)
  then show ?thesis using c setParent_total[OF inv, of h p] by auto
next
  case Update
  then show ?thesis using c update_inv[OF srt inv] by simp
qed

lemma run_inv:
  "std_sort srt \<Longrightarrow> mgr_inv m \<Longrightarrow> run srt cs m = Some r \<Longrightarrow> \<exists>m'. r = Inr m' \<and> mgr_inv m'"
proof (induction cs arbitrary: m)
  case Nil
  then show ?case by auto
next
  case (Cons c cs)
  from Cons.prems(3) obtain r1 where r1: "call_step srt c m = Some r1"
    by (auto split: option.splits)
  from call_step_inv[OF Cons.prems(1,2) r1] obtain m1 where m1: "r1 = Inr m1" "mgr_inv m1" by blast
  then have "run srt cs m1 = Some r" using Cons.prems(3) r1 by simp
  from Cons.IH[OF Cons.prems(1) m1(2) this] show ?case .
qed

lemma call_step_returns:
  assumes srt: "std_sort srt" and inv: "mgr_inv m" and c: "c \<noteq> Update \<or> forest m"
  shows "\<exists>m'. call_step srt c m = Some (Inr m')"
proof (cases c)
  case (CreateTransform t)
  then show ?thesis using createTransform_total[OF inv, of t] by auto
next
  case (DestroyTransform h)
  then show ?thesis using destroyTransform_total[OF inv, of h] by auto
next
  case (SetTransform h t)
  then show ?thesis by simp
next
  case (SetParent h p)
  then show ?thesis using setParent_total[OF inv, of h p] by auto
next
  case Update
  then have "forest m" using c by simp
  from update_post[OF inv srt this] Update show ?thesis by auto
qed

text \<open>C9, amended. In every state that a sequence of calls reaches from the empty manager,
  every public operation other than \<^verbatim>\<open>update\<close> returns without an out-of-bounds
  access; on a handle that does not resolve \<^verbatim>\<open>destroyTransform\<close>,
  \<^verbatim>\<open>setParent\<close>, \<^verbatim>\<open>setTransform\<close> and the allocator's \<^verbatim>\<open>remove\<close> return
  \<^verbatim>\<open>false\<close>, \<^verbatim>\<open>getTransform\<close>, \<^verbatim>\<open>getWorldMatrix\<close> and \<^verbatim>\<open>get\<close> return null
  and \<^verbatim>\<open>getParent\<close> returns \<^verbatim>\<open>NULL_HANDLE\<close>. \<^verbatim>\<open>update\<close> returns when the
  parenting relation on valid handles is a forest, and does not return when it has a
  cycle. No sequence of calls performs an out-of-bounds access.\<close>

theorem public_operations_total:
  assumes srt: "std_sort srt" and r: "run srt cs empty_manager = Some (Inr m)"
  shows "mgr_inv m \<and>
    (\<exists>h' m'. createTransform t m = Inr (h', m')) \<and>
    (\<exists>b m'. destroyTransform h m = Inr (b, m') \<and> b = (getIndexFromId (transform m) h \<noteq> None)) \<and>
    (\<exists>b m'. setParent h p m = Inr (b, m') \<and> b = (getIndexFromId (transform m) h \<noteq> None)) \<and>
    (\<exists>q. getParent h m = Inr q) \<and> (\<exists>w. getWorldMatrix h m = Inr w) \<and>
    (getIndexFromId (transform m) h = None \<longrightarrow>
       getTransform h m = None \<and> setTransform h t m = (False, m) \<and>
       getParent h m = Inr NULL_HANDLE \<and> getWorldMatrix h m = Inr None \<and>
       remove h (transform m) = (False, transform m) \<and> get (transform m) h = None \<and>
       swap h p (transform m) = transform m \<and> put h t (transform m) = transform m) \<and>
    (forest m \<longrightarrow> (\<exists>m'. update srt m = Some (Inr m'))) \<and>
    (\<not> forest m \<longrightarrow> update srt m = None) \<and>
    (\<forall>c. c \<noteq> Update \<or> forest m \<longrightarrow> (\<exists>m'. run srt (cs @ [c]) empty_manager = Some (Inr m'))) \<and>
    (\<forall>cs' e. run srt (cs @ cs') empty_manager \<noteq> Some (Inl e))"
proof -
  have inv: "mgr_inv m" using run_inv[OF srt mgr_inv_empty r] by simp
  have 1: "\<exists>h' m'. createTransform t m = Inr (h', m')" using createTransform_total[OF inv] by blast
  have 2: "\<exists>b m'. destroyTransform h m = Inr (b, m') \<and> b = (getIndexFromId (transform m) h \<noteq> None)"
    using destroyTransform_total[OF inv] by blast
  have 3: "\<exists>b m'. setParent h p m = Inr (b, m') \<and> b = (getIndexFromId (transform m) h \<noteq> None)"
    using setParent_total[OF inv] by blast
  have 4: "\<exists>q. getParent h m = Inr q" using getParent_total[OF inv] by blast
  have 5: "\<exists>w. getWorldMatrix h m = Inr w" using getWorldMatrix_total[OF inv] by blast
  have 6: "getTransform h m = None \<and> setTransform h t m = (False, m) \<and>
       getParent h m = Inr NULL_HANDLE \<and> getWorldMatrix h m = Inr None \<and>
       remove h (transform m) = (False, transform m) \<and> get (transform m) h = None \<and>
       swap h p (transform m) = transform m \<and> put h t (transform m) = transform m"
    if "getIndexFromId (transform m) h = None"
    using that
    by (simp add: getTransform_def setTransform_def get_def getParent_def getWorldMatrix_def
        remove_def swap_def put_def)
  have 7: "\<exists>m'. update srt m = Some (Inr m')" if "forest m"
    using update_post[OF inv srt that] by blast
  have 8: "update srt m = None" if "\<not> forest m" using update_diverges[OF inv that] .
  have 9: "\<exists>m'. run srt (cs @ [c]) empty_manager = Some (Inr m')" if "c \<noteq> Update \<or> forest m" for c
    using call_step_returns[OF srt inv that] r by (auto simp: run_append)
  have 10: "run srt (cs @ cs') empty_manager \<noteq> Some (Inl e)" for cs' e
  proof
    assume a: "run srt (cs @ cs') empty_manager = Some (Inl e)"
    then have "run srt cs' m = Some (Inl e)" using r by (simp add: run_append)
    from run_inv[OF srt inv this] show False by simp
  qed
  show ?thesis using inv 1 2 3 4 5 6 7 8 9 10 by blast
qed

text \<open>Instances: the empty manager, and B under the destroyed A.\<close>

theorem public_operations_total_witness:
  "std_sort stable_sort \<and>
   run stable_sort [] (empty_manager :: mat4 transform_manager_t) = Some (Inr empty_manager) \<and>
   getIndexFromId (transform (empty_manager :: mat4 transform_manager_t)) hA = None \<and>
   (\<exists>m'. destroyTransform hA (empty_manager :: mat4 transform_manager_t) = Inr (False, m')) \<and>
   getWorldMatrix hA (empty_manager :: mat4 transform_manager_t) = Inr None \<and>
   getParent hA (empty_manager :: mat4 transform_manager_t) = Inr NULL_HANDLE \<and>
   run stable_sort
     [CreateTransform (translate 1 0 0), CreateTransform (translate 0 1 0), SetParent hB hA,
      DestroyTransform hA] empty_manager = Some (Inr orphan_scene) \<and>
   getIndexFromId (transform orphan_scene) hA = None \<and>
   (\<exists>m'. destroyTransform hA orphan_scene = Inr (False, m')) \<and>
   getWorldMatrix hA orphan_scene = Inr None \<and>
   getParent hA orphan_scene = Inr NULL_HANDLE \<and>
   forest orphan_scene \<and> (\<exists>m'. update stable_sort orphan_scene = Some (Inr m'))"
proof -
  have 1: "run stable_sort [] (empty_manager :: mat4 transform_manager_t) = Some (Inr empty_manager)"
    by simp
  have 2: "getIndexFromId (transform (empty_manager :: mat4 transform_manager_t)) hA = None"
    by (simp add: manager_defs)
  have 3: "getIndexFromId (transform orphan_scene) hA = None"
    by (simp add: orphan_scene_def manager_defs handle_defs)
  note E = public_operations_total [OF std_sort_stable_sort 1,
      where h = hA and t = "translate 1 0 0" and p = NULL_HANDLE]
  note O = public_operations_total [OF std_sort_stable_sort scenes_reached(3),
      where h = hA and t = "translate 1 0 0" and p = NULL_HANDLE]
  have e1: "\<exists>m'. destroyTransform hA (empty_manager :: mat4 transform_manager_t) = Inr (False, m')"
    using E[THEN conjunct2, THEN conjunct2, THEN conjunct1] 2 by auto
  have e2: "getParent hA (empty_manager :: mat4 transform_manager_t) = Inr NULL_HANDLE \<and>
      getWorldMatrix hA (empty_manager :: mat4 transform_manager_t) = Inr None"
    using E 2 by blast
  have o1: "\<exists>m'. destroyTransform hA orphan_scene = Inr (False, m')"
    using O[THEN conjunct2, THEN conjunct2, THEN conjunct1] 3 by auto
  have o2: "getParent hA orphan_scene = Inr NULL_HANDLE \<and> getWorldMatrix hA orphan_scene = Inr None"
    using O 3 by blast
  have o3: "\<exists>m'. update stable_sort orphan_scene = Some (Inr m')"
    using O forest_orphan_scene by blast
  show ?thesis
    using std_sort_stable_sort 1 2 3 scenes_reached(3) forest_orphan_scene e1 e2 o1 o2 o3
    by simp
qed

text \<open>C9, as stated, fails for \<^verbatim>\<open>update\<close>: with A created and set to be its own
  parent, \<^verbatim>\<open>update\<close> does not return.\<close>

theorem update_on_cycle_does_not_return:
  "run stable_sort [CreateTransform (translate 1 0 0), SetParent hA hA] empty_manager =
     Some (Inr cycle_scene) \<and>
   update stable_sort cycle_scene = None \<and>
   run stable_sort [CreateTransform (translate 1 0 0), SetParent hA hA, Update] empty_manager = None"
proof -
  have u: "update stable_sort cycle_scene = None"
    using update_diverges[OF mgr_inv_cycle_scene not_forest_cycle_scene] .
  have "run stable_sort ([CreateTransform (translate 1 0 0), SetParent hA hA] @ [Update]) empty_manager = None"
    unfolding run_append scenes_reached(4) using u by simp
  then show ?thesis using scenes_reached(4) u by simp
qed

section \<open>The sort\<close>

lemma forest_two_roots: "forest two_roots"
  by (rule ordered_forest)
    (simp add: ordered_def parent_index_def two_roots_def manager_defs handle_defs less_Suc_eq)

lemma orderedTransform_two_roots:
  "orderedTransform two_roots [0..<getElementCount (transform two_roots)] =
     Some (Inr [entry_A, entry_B])"
proof -
  have n: "getIndexFromId (transform two_roots) NULL_HANDLE = None"
    by (simp add: two_roots_def manager_defs handle_defs)
  have u: "[0..<getElementCount (transform two_roots)] = [0, 1]"
    by (simp add: two_roots_def getElementCount_def upt_rec)
  have p: "parent two_roots ! 0 = NULL_HANDLE" "parent two_roots ! Suc 0 = NULL_HANDLE"
    "length (parent two_roots) = 2"
    by (simp_all add: two_roots_def)
  have i: "getIdFromIndex (transform two_roots) 0 = hA"
    "getIdFromIndex (transform two_roots) (Suc 0) = hB"
    by (simp_all add: two_roots_def getIdFromIndex_def hA_def hB_def)
  show ?thesis
    unfolding u by (simp add: entry_at_def p i level_walk_None[OF n] entry_A_def entry_B_def)
qed

text \<open>C4, as stated, fails: the code calls \<^verbatim>\<open>std::sort\<close>, which need not keep entries
  of equal level in their order. With two roots A and B, a sort that meets the contract of
  \<^verbatim>\<open>std::sort\<close> hands the reorder loop B before A.\<close>

theorem std_sort_may_reorder_ties:
  "std_sort reversing_sort \<and>
   orderedTransform two_roots [0..<getElementCount (transform two_roots)] =
     Some (Inr [entry_A, entry_B]) \<and>
   level entry_A = level entry_B \<and>
   reversing_sort [entry_A, entry_B] = [entry_B, entry_A] \<and>
   sortTransforms reversing_sort two_roots =
     Some (reorder [entry_B, entry_A] [0..<getElementCount (transform two_roots)] two_roots) \<and>
   \<not> keeps_ties [entry_A, entry_B] (reversing_sort [entry_A, entry_B])"
proof -
  have r: "reversing_sort [entry_A, entry_B] = [entry_B, entry_A]"
    by (simp add: reversing_sort_def entry_A_def entry_B_def)
  have ne: "entry_A \<noteq> entry_B" by (simp add: entry_A_def entry_B_def hA_def hB_def)
  have k: "\<not> keeps_ties [entry_A, entry_B] (reversing_sort [entry_A, entry_B])"
    unfolding r using ne by (auto simp: keeps_ties_def entry_A_def entry_B_def)
  have s: "sortTransforms reversing_sort two_roots =
     Some (reorder [entry_B, entry_A] [0..<getElementCount (transform two_roots)] two_roots)"
    by (simp add: sortTransforms_def orderedTransform_two_roots r)
  show ?thesis
    using std_sort_reversing_sort orderedTransform_two_roots r k s
    by (simp add: entry_A_def entry_B_def)
qed

text \<open>C4, amended. \<^verbatim>\<open>sortTransforms\<close> builds, in dense order, the triples of handle,
  parent handle and level, the level being the number of steps from the parent handle to a
  handle that does not resolve; it builds them whenever the parenting relation is a
  forest. The sequence it reorders by is what \<^verbatim>\<open>std::sort\<close> makes of them: a
  permutation of the triples in ascending order of level, with nothing said about the
  order of triples of equal level.\<close>

theorem sortTransforms_sorts_by_level:
  assumes inv: "mgr_inv m" and srt: "std_sort srt"
  shows "(forest m \<longrightarrow>
            (\<exists>es. orderedTransform m [0..<getElementCount (transform m)] = Some (Inr es))) \<and>
         (\<forall>es. orderedTransform m [0..<getElementCount (transform m)] = Some (Inr es) \<longrightarrow>
            length es = getElementCount (transform m) \<and>
            (\<forall>i<getElementCount (transform m).
               t_id (es ! i) = getIdFromIndex (transform m) i \<and>
               t_parent (es ! i) = parent m ! i \<and>
               hops (transform m) (parent m) (parent m ! i) (level (es ! i))) \<and>
            sortTransforms srt m =
              Some (reorder (srt es) [0..<getElementCount (transform m)] m) \<and>
            mset (srt es) = mset es \<and> sorted (map level (srt es)))"
proof (intro conjI allI impI)
  note l = mgr_inv_lens[OF inv]
  let ?n = "getElementCount (transform m)"
  have n: "?n = length (dense (transform m))" by (simp add: getElementCount_def)
  {
    assume f: "forest m"
    from sortTransforms_post[OF l(1) l(2) srt f] obtain m' where
      "sortTransforms srt m = Some (Inr m')" by blast
    then show "\<exists>es. orderedTransform m [0..<?n] = Some (Inr es)"
      by (auto simp: sortTransforms_def Let_def split: option.splits sum.splits)
  }
  fix es assume es: "orderedTransform m [0..<?n] = Some (Inr es)"
  from orderedTransform_Inr[OF es] have les: "length es = ?n"
    and ent: "\<And>j. j < ?n \<Longrightarrow> entry_at m j = Some (Inr (es ! j))" by auto
  show "length es = ?n" by (rule les)
  show "sortTransforms srt m = Some (reorder (srt es) [0..<?n] m)"
    using es by (simp add: sortTransforms_def)
  show "mset (srt es) = mset es" "sorted (map level (srt es))"
    using std_sortD[OF srt, of es] by simp_all
  fix i assume i: "i < ?n"
  then have "i < length (parent m)" using l(2) n by simp
  from entry_at_Some[OF l(1) l(2) ent[OF i] this]
  have "t_id (es ! i) = getIdFromIndex (transform m) i \<and> t_parent (es ! i) = parent m ! i \<and>
         hops (transform m) (parent m) (parent m ! i) (level (es ! i))"
    by auto
  then show "t_id (es ! i) = getIdFromIndex (transform m) i"
    "t_parent (es ! i) = parent m ! i"
    "hops (transform m) (parent m) (parent m ! i) (level (es ! i))"
    by simp_all
qed

text \<open>An instance: two roots, and the sort that reverses ties.\<close>

theorem sortTransforms_sorts_by_level_witness:
  "mgr_inv two_roots \<and> std_sort reversing_sort \<and> forest two_roots \<and>
   orderedTransform two_roots [0..<getElementCount (transform two_roots)] =
     Some (Inr [entry_A, entry_B]) \<and>
   mset (reversing_sort [entry_A, entry_B]) = mset [entry_A, entry_B] \<and>
   sorted (map level (reversing_sort [entry_A, entry_B]))"
  using sortTransforms_sorts_by_level [OF mgr_inv_two_roots std_sort_reversing_sort]
    mgr_inv_two_roots std_sort_reversing_sort forest_two_roots orderedTransform_two_roots
  by blast

end
